theory Spec2Isabelle
  imports Main
begin

section \<open>The segmented index of xk6-segment\<close>

text \<open>
  The Go package \<^verbatim>\<open>segment\<close> wraps k6's segmented index: a cursor
  \<open>(scaled, unscaled)\<close> over the elements of one execution segment, moved by
  \<^verbatim>\<open>Next\<close>, \<^verbatim>\<open>Prev\<close> and \<^verbatim>\<open>GoTo\<close>, and a
  name-keyed cache of such cursors.

  Modelling decisions.
  \<^item> An \<^verbatim>\<open>int64\<close> is an \<open>int\<close> inside the two's complement range
    (\<open>fits64\<close>), and every sum, difference and product of the source is followed
    by the reduction to that range (\<open>wrap64\<close>), in the order Go evaluates it.
    \<^verbatim>\<open>int(x)\<close> is the identity and \<^verbatim>\<open>len\<close> needs no reduction (a 64-bit
    platform).
  \<^item> Go's \<^verbatim>\<open>/\<close> and \<^verbatim>\<open>%\<close> truncate towards zero and panic on a zero
    divisor; slice indexing panics outside \<open>0 \<le> i < len\<close>. Each panic is a value
    of type \<open>panic\<close>. A method mutates its receiver in place, so a panic leaves
    the receiver as it was when the panic was raised: a method returns the pair of
    its outcome (\<open>panic + result\<close>, \<open>Inl\<close> the panic) and the receiver afterwards.
  \<^item> Every method holds the receiver's mutex for its whole body, so a call is one
    atomic state transformer; the mutex itself is not modelled.
\<close>

subsection \<open>Go primitives\<close>

datatype panic =
    DivideByZero
  | IndexOutOfRange
  | NilDereference
  | Error string

definition wrap64 :: "int \<Rightarrow> int" where
  "wrap64 x = (x + 2 ^ 63) mod 2 ^ 64 - 2 ^ 63"

definition fits64 :: "int \<Rightarrow> bool" where
  "fits64 x \<longleftrightarrow> - (2 ^ 63) \<le> x \<and> x < 2 ^ 63"

text \<open>The quotient and the remainder of the integers, truncated towards zero.\<close>

definition quot :: "int \<Rightarrow> int \<Rightarrow> int" where
  "quot a b = (if (a < 0) = (b < 0) then \<bar>a\<bar> div \<bar>b\<bar> else - (\<bar>a\<bar> div \<bar>b\<bar>))"

definition rem :: "int \<Rightarrow> int \<Rightarrow> int" where
  "rem a b = (if a < 0 then - (\<bar>a\<bar> mod \<bar>b\<bar>) else \<bar>a\<bar> mod \<bar>b\<bar>)"

text \<open>
  \<^verbatim>\<open>a / b\<close> and \<^verbatim>\<open>a % b\<close> on \<^verbatim>\<open>int64\<close>. The one quotient outside the
  range, of the least \<^verbatim>\<open>int64\<close> by \<open>-1\<close>, wraps around to the dividend.
\<close>

definition go_quot :: "int \<Rightarrow> int \<Rightarrow> panic + int" where
  "go_quot a b = (if b = 0 then Inl DivideByZero else Inr (wrap64 (quot a b)))"

definition go_rem :: "int \<Rightarrow> int \<Rightarrow> panic + int" where
  "go_rem a b = (if b = 0 then Inl DivideByZero else Inr (rem a b))"

definition index :: "int list \<Rightarrow> int \<Rightarrow> panic + int" where
  "index xs i =
     (if 0 \<le> i \<and> i < int (length xs) then Inr (xs ! nat i) else Inl IndexOutOfRange)"

subsection \<open>SegmentedIndex and its three methods\<close>

record SegmentedIndex =
  start :: int
  lcd :: int
  offsets :: "int list"
  scaled :: int
  unscaled :: int

record SegmentedIndexResult =
  Scaled :: int
  Unscaled :: int

definition NewSegmentedIndex :: "int \<Rightarrow> int \<Rightarrow> int list \<Rightarrow> SegmentedIndex" where
  "NewSegmentedIndex st l offs =
     \<lparr>start = st, lcd = l, offsets = offs, scaled = 0, unscaled = 0\<rparr>"

definition result_of :: "SegmentedIndex \<Rightarrow> SegmentedIndexResult" where
  "result_of s = \<lparr>Scaled = scaled s, Unscaled = unscaled s\<rparr>"

text \<open>A cursor whose two fields hold 64-bit values.\<close>

definition cursor64 :: "SegmentedIndex \<Rightarrow> bool" where
  "cursor64 s \<longleftrightarrow> fits64 (scaled s) \<and> fits64 (unscaled s)"

text \<open>
  The expression \<^verbatim>\<open>s.offsets[int(k)%len(s.offsets)]\<close> of \<^verbatim>\<open>Next\<close> and
  \<^verbatim>\<open>Prev\<close>, for the value \<open>k\<close> of \<^verbatim>\<open>s.scaled-1\<close> or \<^verbatim>\<open>s.scaled-2\<close>.
\<close>

definition cyclic_offset :: "SegmentedIndex \<Rightarrow> int \<Rightarrow> panic + int" where
  "cyclic_offset s k =
     (case go_rem k (int (length (offsets s))) of
        Inl e \<Rightarrow> Inl e
      | Inr j \<Rightarrow> index (offsets s) j)"

definition Next :: "SegmentedIndex \<Rightarrow> (panic + SegmentedIndexResult) \<times> SegmentedIndex" where
  "Next s =
     (case (if scaled s = 0
            then Inr (s\<lparr>unscaled := wrap64 (unscaled s + wrap64 (start s + 1))\<rparr>)
            else (case cyclic_offset s (wrap64 (scaled s - 1)) of
                    Inl e \<Rightarrow> Inl e
                  | Inr d \<Rightarrow> Inr (s\<lparr>unscaled := wrap64 (unscaled s + d)\<rparr>)))
      of Inl e \<Rightarrow> (Inl e, s)
       | Inr s1 \<Rightarrow>
          (let s2 = s1\<lparr>scaled := wrap64 (scaled s1 + 1)\<rparr> in (Inr (result_of s2), s2)))"

definition Prev :: "SegmentedIndex \<Rightarrow> (panic + SegmentedIndexResult) \<times> SegmentedIndex" where
  "Prev s =
     (case (if scaled s = 1
            then Inr (s\<lparr>unscaled := wrap64 (unscaled s - wrap64 (start s + 1))\<rparr>)
            else (case cyclic_offset s (wrap64 (scaled s - 2)) of
                    Inl e \<Rightarrow> Inl e
                  | Inr d \<Rightarrow> Inr (s\<lparr>unscaled := wrap64 (unscaled s - d)\<rparr>)))
      of Inl e \<Rightarrow> (Inl e, s)
       | Inr s1 \<Rightarrow>
          (let s2 = s1\<lparr>scaled := wrap64 (scaled s1 - 1)\<rparr> in (Inr (result_of s2), s2)))"

text \<open>
  The loop of \<^verbatim>\<open>GoTo\<close>:
  \<^verbatim>\<open>for ; i < value%s.lcd; gi, i = gi+1, i+s.offsets[gi] { s.scaled++; s.unscaled += s.offsets[gi] }\<close>.
  It returns the final \<open>gi\<close> (the number of iterations completed) and the
  receiver. An iteration with \<open>gi\<close> outside the slice panics after
  \<^verbatim>\<open>s.scaled++\<close>, so the recursion is bounded by the distance of \<open>gi\<close> to
  the end of the slice. (\<^verbatim>\<open>gi+1\<close> is not reduced: the loop only goes on when
  \<open>gi\<close> is a valid index, and a slice has less than \<open>2 ^ 63\<close> elements.)
\<close>

function goto_loop :: "int \<Rightarrow> int \<Rightarrow> int \<Rightarrow> SegmentedIndex \<Rightarrow> (panic + int) \<times> SegmentedIndex" where
  "goto_loop v gi i s =
     (case go_rem v (lcd s) of
        Inl e \<Rightarrow> (Inl e, s)
      | Inr r \<Rightarrow>
         if i < r then
           (let s1 = s\<lparr>scaled := wrap64 (scaled s + 1)\<rparr>
            in case index (offsets s1) gi of
                 Inl e \<Rightarrow> (Inl e, s1)
               | Inr d \<Rightarrow>
                  goto_loop v (gi + 1) (wrap64 (i + d))
                    (s1\<lparr>unscaled := wrap64 (unscaled s1 + d)\<rparr>))
         else (Inr gi, s))"
  by pat_completeness auto
termination
  by (relation "measure (\<lambda>(v, gi, i, s). nat (int (length (offsets s)) - gi))")
     (auto simp: index_def split: if_splits)

declare goto_loop.simps [simp del]

definition GoTo :: "int \<Rightarrow> SegmentedIndex \<Rightarrow> (panic + SegmentedIndexResult) \<times> SegmentedIndex" where
  "GoTo v s =
     (case go_quot v (lcd s) of
        Inl e \<Rightarrow> (Inl e, s)
      | Inr wholeCycles \<Rightarrow>
         (let s1 = s\<lparr>scaled := wrap64 (wholeCycles * int (length (offsets s)))\<rparr>;
              s2 = s1\<lparr>unscaled := wrap64 (wrap64 (wrap64 (wholeCycles * lcd s1) + start s1) + 1)\<rparr>
          in case goto_loop v 0 (start s2) s2 of
               (Inl e, s3) \<Rightarrow> (Inl e, s3)
             | (Inr gi, s3) \<Rightarrow>
                (case (if gi > 0 then
                         (case index (offsets s3) (wrap64 (gi - 1)) of
                            Inl e \<Rightarrow> Inl e
                          | Inr d \<Rightarrow> Inr (s3\<lparr>unscaled := wrap64 (unscaled s3 - d)\<rparr>))
                       else if scaled s3 > 0 then
                         (case index (offsets s3) (wrap64 (int (length (offsets s3)) - 1)) of
                            Inl e \<Rightarrow> Inl e
                          | Inr d \<Rightarrow> Inr (s3\<lparr>unscaled := wrap64 (unscaled s3 - d)\<rparr>))
                       else Inr s3)
                 of Inl e \<Rightarrow> (Inl e, s3)
                  | Inr s4 \<Rightarrow>
                     (let s5 = (if scaled s4 = 0 then s4\<lparr>unscaled := 0\<rparr> else s4)
                      in (Inr (result_of s5), s5)))))"

subsection \<open>Sequences of calls\<close>

datatype call = Advance | Retreat | SeekTo int

definition do_call :: "call \<Rightarrow> SegmentedIndex \<Rightarrow> (panic + SegmentedIndexResult) \<times> SegmentedIndex" where
  "do_call c s = (case c of Advance \<Rightarrow> Next s | Retreat \<Rightarrow> Prev s | SeekTo v \<Rightarrow> GoTo v s)"

text \<open>
  \<open>run cs s\<close> is the receiver after the calls \<open>cs\<close>, made one after the other
  on \<open>s\<close> (a call that panics leaves the receiver as the panic found it, and the
  next call goes on from there). \<open>permitted cs s\<close> says that every
  \<^verbatim>\<open>Prev\<close> among them is made with \<open>scaled \<ge> 1\<close>, the precondition in its
  doc comment.
\<close>

fun run :: "call list \<Rightarrow> SegmentedIndex \<Rightarrow> SegmentedIndex" where
  "run [] s = s"
| "run (c # cs) s = run cs (snd (do_call c s))"

fun permitted :: "call list \<Rightarrow> SegmentedIndex \<Rightarrow> bool" where
  "permitted [] s = True"
| "permitted (c # cs) s =
     ((c \<noteq> Retreat \<or> 1 \<le> scaled s) \<and> permitted cs (snd (do_call c s)))"

text \<open>\<open>advances n s\<close>: the results of \<open>n\<close> successive calls of \<^verbatim>\<open>Next\<close>, in order.\<close>

fun advances :: "nat \<Rightarrow> SegmentedIndex \<Rightarrow> (panic + SegmentedIndexResult) list" where
  "advances 0 s = []"
| "advances (Suc n) s = (case Next s of (r, s') \<Rightarrow> r # advances n s')"

subsection \<open>What the cursor is meant to hold\<close>

text \<open>
  The position in the whole sequence of the \<open>k\<close>-th element of the segment, as
  the specification writes it: \<open>0\<close> for \<open>k = 0\<close>, and otherwise
  \<open>start + 1\<close> plus the offsets \<open>offsets[j mod len(offsets)]\<close> for
  \<open>j = 0, \<dots>, k - 2\<close>. It is a number, not an \<^verbatim>\<open>int64\<close>.
\<close>

definition position :: "int \<Rightarrow> int list \<Rightarrow> nat \<Rightarrow> int" where
  "position st offs k =
     (if k = 0 then 0 else st + 1 + (\<Sum>j<k - 1. offs ! (j mod length offs)))"

definition exact_position :: "SegmentedIndex \<Rightarrow> bool" where
  "exact_position s \<longleftrightarrow>
     (0 \<le> scaled s \<longrightarrow> unscaled s = position (start s) (offsets s) (nat (scaled s)))"

definition same_params :: "SegmentedIndex \<Rightarrow> SegmentedIndex \<Rightarrow> bool" where
  "same_params s s' \<longleftrightarrow> start s' = start s \<and> lcd s' = lcd s \<and> offsets s' = offsets s"

text \<open>
  Two conditions on the triple \<open>(start, lcd, offsets)\<close>. \<^verbatim>\<open>NewSegmentedIndex\<close>
  checks nothing; its doc comment asks for the triple ``as returned by
  \<^verbatim>\<open>GetStripedOffsets()\<close>'' of k6, which is outside this repository.
  \<^item> \<open>cyclic\<close>: every offset is positive, and one pass over the offsets covers
    exactly one cycle.
  \<^item> \<open>striped\<close>: moreover the elements reached from \<open>start\<close> by all offsets
    but the last stay inside the first cycle (\<open>start < last offsets\<close>, as the
    offsets sum to \<open>lcd\<close>).
\<close>

definition cyclic :: "int \<Rightarrow> int \<Rightarrow> int list \<Rightarrow> bool" where
  "cyclic st l offs \<longleftrightarrow> 0 \<le> st \<and> 0 < l \<and> list_all (\<lambda>d. 0 < d) offs \<and> sum_list offs = l"


text \<open>
  When a call stays inside the \<^verbatim>\<open>int64\<close> range, on an index whose cursor is on
  a position.
  \<^item> \<^verbatim>\<open>Next\<close>: the sum it computes is below \<open>2 ^ 63\<close>.
  \<^item> \<^verbatim>\<open>Prev\<close>: its precondition \<open>scaled \<ge> 1\<close>.
  \<^item> \<^verbatim>\<open>GoTo\<close>: the target is an \<^verbatim>\<open>int64\<close> \<open>\<ge> 0\<close>; the loop variable
    \<open>i\<close> has room (\<open>start + lcd < 2 ^ 63\<close>); and so has the position it lands
    on (\<open>v + start + 1 - last offsets < 2 ^ 63\<close>, which every target meets when
    \<open>start < last offsets\<close>).

  \<open>admitted cs s\<close> says so of every call of \<open>cs\<close>, made one after the other
  on \<open>s\<close>.
\<close>

fun admissible :: "call \<Rightarrow> SegmentedIndex \<Rightarrow> bool" where
  "admissible Advance s =
     ((if scaled s = 0 then unscaled s + (start s + 1)
       else unscaled s + offsets s ! (nat (scaled s - 1) mod length (offsets s))) < 2 ^ 63)"
| "admissible Retreat s = (1 \<le> scaled s)"
| "admissible (SeekTo v) s =
     (0 \<le> v \<and> v < 2 ^ 63 \<and> start s + lcd s < 2 ^ 63
      \<and> v + start s + 1 - last (offsets s) < 2 ^ 63)"

fun admitted :: "call list \<Rightarrow> SegmentedIndex \<Rightarrow> bool" where
  "admitted [] s = True"
| "admitted (c # cs) s = (admissible c s \<and> admitted cs (snd (do_call c s)))"



subsection \<open>The shared indexes of a Module\<close>

text \<open>
  \<^verbatim>\<open>sharedSegmentedIndexes.data\<close> maps a name to a pointer. Pointer identity is
  what ``the same instance'' means, so the model has an explicit store:
  \<open>objects\<close> lists the \<^verbatim>\<open>SegmentedIndex\<close> values allocated so far, and a
  pointer is a position in that list. \<^verbatim>\<open>&SegmentedIndex{...}\<close> allocates at
  the end.

  k6 is outside the repository, so its two entry points are parameters:
  \<open>GetState\<close> stands for \<^verbatim>\<open>lib.GetState\<close> (\<open>None\<close> is a nil
  \<^verbatim>\<open>*lib.State\<close>), and \<open>striping\<close> for \<^verbatim>\<open>lib.NewExecutionTuple\<close> on the
  state's options followed by \<^verbatim>\<open>GetStripedOffsets\<close>: \<open>Inl\<close> the error
  that \<^verbatim>\<open>get\<close> panics with, \<open>Inr (start, offsets, lcd)\<close> otherwise.
\<close>

type_synonym ref = nat

text \<open>\<^verbatim>\<open>Module.shared.data\<close> is the field \<open>data\<close>; the two mutexes are not modelled.\<close>

record Module =
  data :: "string \<rightharpoonup> ref"
  objects :: "SegmentedIndex list"

definition New :: Module where
  "New = \<lparr>data = Map.empty, objects = []\<rparr>"

text \<open>The part of \<^verbatim>\<open>get\<close> under \<^verbatim>\<open>s.mu.Lock()\<close>: look again, construct if still absent.\<close>

definition get_locked ::
  "('st \<Rightarrow> string + int \<times> int list \<times> int) \<Rightarrow> 'st option \<Rightarrow> string \<Rightarrow> Module
     \<Rightarrow> (panic + ref) \<times> Module" where
  "get_locked striping state name m =
     (case data m name of
        Some array \<Rightarrow> (Inr array, m)
      | None \<Rightarrow>
         (case state of
            None \<Rightarrow> (Inl NilDereference, m)
          | Some state' \<Rightarrow>
             (case striping state' of
                Inl err \<Rightarrow> (Inl (Error err), m)
              | Inr (st, offs, l) \<Rightarrow>
                 (let array = length (objects m);
                      m1 = m\<lparr>objects := objects m @ [NewSegmentedIndex st l offs]\<rparr>
                  in (Inr array, m1\<lparr>data := (data m1)(name \<mapsto> array)\<rparr>)))))"

definition get ::
  "('st \<Rightarrow> string + int \<times> int list \<times> int) \<Rightarrow> 'st option \<Rightarrow> string \<Rightarrow> Module
     \<Rightarrow> (panic + ref) \<times> Module" where
  "get striping state name m =
     (case data m name of
        Some array \<Rightarrow> (Inr array, m)
      | None \<Rightarrow> get_locked striping state name m)"

definition XSharedSegmentedIndex ::
  "('st \<Rightarrow> string + int \<times> int list \<times> int) \<Rightarrow> ('ctx \<Rightarrow> 'st option) \<Rightarrow> 'ctx \<Rightarrow> string
     \<Rightarrow> Module \<Rightarrow> (panic + ref) \<times> Module" where
  "XSharedSegmentedIndex striping GetState ctx name m =
     (let state = GetState ctx
      in if length name = 0
         then (Inl (Error ''empty name provided to SharedArray's constructor''), m)
         else get striping state name m)"

text \<open>
  What can happen to a module over its lifetime.
  \<^item> \<open>GetOrCreate ctx name\<close>: a call of \<^verbatim>\<open>XSharedSegmentedIndex\<close> that runs
    without another call getting in between.
  \<^item> \<open>Overtaken ctx name\<close>: the two critical sections of \<^verbatim>\<open>get\<close> are atomic
    (the \<^verbatim>\<open>RWMutex\<close>), but other calls can run between them. The first
    section changes nothing, so a call that missed \<open>name\<close> there and was
    overtaken acts on the module as its second section alone, at the moment it gets
    the lock.
  \<^item> \<open>Invoke a c\<close>: a method call through a pointer the module handed out, which
    moves that object's cursor.
\<close>

datatype 'ctx event = GetOrCreate 'ctx string | Overtaken 'ctx string | Invoke ref call

definition happen ::
  "('st \<Rightarrow> string + int \<times> int list \<times> int) \<Rightarrow> ('ctx \<Rightarrow> 'st option) \<Rightarrow> 'ctx event
     \<Rightarrow> Module \<Rightarrow> Module" where
  "happen striping GetState ev m =
     (case ev of
        GetOrCreate ctx name \<Rightarrow> snd (XSharedSegmentedIndex striping GetState ctx name m)
      | Overtaken ctx name \<Rightarrow> snd (get_locked striping (GetState ctx) name m)
      | Invoke a c \<Rightarrow>
         (if a < length (objects m)
          then m\<lparr>objects := (objects m)[a := snd (do_call c (objects m ! a))]\<rparr>
          else m))"

fun lifetime ::
  "('st \<Rightarrow> string + int \<times> int list \<times> int) \<Rightarrow> ('ctx \<Rightarrow> 'st option) \<Rightarrow> 'ctx event list
     \<Rightarrow> Module \<Rightarrow> Module" where
  "lifetime striping GetState [] m = m"
| "lifetime striping GetState (ev # evs) m =
     lifetime striping GetState evs (happen striping GetState ev m)"

text \<open>
  \<open>for_name ev name\<close>: the event is a call asking for \<open>name\<close>.
  \<open>constructions striping GetState name evs m\<close> counts the calls for \<open>name\<close>
  among \<open>evs\<close> that allocate a \<^verbatim>\<open>SegmentedIndex\<close>, that is, after which
  the store is longer than before.
\<close>

fun for_name :: "'ctx event \<Rightarrow> string \<Rightarrow> bool" where
  "for_name (GetOrCreate ctx name') name = (name' = name)"
| "for_name (Overtaken ctx name') name = (name' = name)"
| "for_name (Invoke a c) name = False"

fun constructions ::
  "('st \<Rightarrow> string + int \<times> int list \<times> int) \<Rightarrow> ('ctx \<Rightarrow> 'st option) \<Rightarrow> string
     \<Rightarrow> 'ctx event list \<Rightarrow> Module \<Rightarrow> nat" where
  "constructions striping GetState name [] m = 0"
| "constructions striping GetState name (ev # evs) m =
     (let m' = happen striping GetState ev m
      in (if for_name ev name \<and> length (objects m) < length (objects m') then 1 else 0)
         + constructions striping GetState name evs m')"

section \<open>Arithmetic in 64 bits\<close>

lemma wrap64_id: "fits64 x \<Longrightarrow> wrap64 x = x"
  by (simp add: wrap64_def fits64_def)

lemma fits64_between: "0 \<le> x \<Longrightarrow> x < 2 ^ 63 \<Longrightarrow> fits64 x"
  by (simp add: fits64_def)

lemma wrap64_between: "0 \<le> x \<Longrightarrow> x < 2 ^ 63 \<Longrightarrow> wrap64 x = x"
  by (simp add: wrap64_id fits64_between)

lemma fits64_wrap64: "fits64 (wrap64 x)"
  by (simp add: wrap64_def fits64_def)

lemma wrap64_add_left: "wrap64 (wrap64 a + b) = wrap64 (a + b)"
proof -
  have "wrap64 a + b + 2 ^ 63 = (a + 2 ^ 63) mod 2 ^ 64 + b"
    by (simp add: wrap64_def)
  moreover have "((a + 2 ^ 63) mod 2 ^ 64 + b) mod 2 ^ 64 = (a + 2 ^ 63 + b) mod 2 ^ 64"
    by (rule mod_add_left_eq)
  moreover have "a + 2 ^ 63 + b = a + b + 2 ^ 63"
    by simp
  ultimately have "(wrap64 a + b + 2 ^ 63) mod 2 ^ 64 = (a + b + 2 ^ 63) mod 2 ^ 64"
    by (simp only:)
  then show ?thesis
    unfolding wrap64_def [of "wrap64 a + b"] wrap64_def [of "a + b"] by (simp only:)
qed

lemma wrap64_diff_left: "wrap64 (wrap64 a - b) = wrap64 (a - b)"
  using wrap64_add_left [of a "- b"] by simp

lemma wrap64_add_diff: "fits64 a \<Longrightarrow> wrap64 (wrap64 (a + b) - b) = a"
  by (simp add: wrap64_diff_left wrap64_id)

lemma wrap64_diff_add: "fits64 a \<Longrightarrow> wrap64 (wrap64 (a - b) + b) = a"
  by (simp add: wrap64_add_left wrap64_id)

lemma wrap64_0: "wrap64 0 = 0" and wrap64_1: "wrap64 1 = 1"
  by (simp_all add: wrap64_def)

lemma fits64_0: "fits64 0"
  by (simp add: fits64_def)

lemma quot_nonneg: "0 \<le> a \<Longrightarrow> 0 < b \<Longrightarrow> quot a b = a div b"
  by (simp add: quot_def)

lemma div_le_self_int: "0 \<le> a \<Longrightarrow> 0 < b \<Longrightarrow> a div b \<le> (a :: int)"
  using zdiv_mono2 [of a 1 b] by simp

lemma go_rem_nonneg: "0 \<le> a \<Longrightarrow> 0 < b \<Longrightarrow> go_rem a b = Inr (a mod b)"
  by (simp add: go_rem_def rem_def)

lemma go_quot_nonneg:
  assumes "0 \<le> a" and "a < 2 ^ 63" and "0 < b"
  shows "go_quot a b = Inr (a div b)"
proof -
  have "0 \<le> a div b" using assms by (simp add: pos_imp_zdiv_nonneg_iff)
  moreover have "a div b \<le> a" using assms by (simp add: div_le_self_int)
  ultimately have "wrap64 (a div b) = a div b"
    using assms(2) by (intro wrap64_between) simp_all
  then show ?thesis
    using assms by (simp add: go_quot_def quot_nonneg)
qed

lemma index_nat: "n < length xs \<Longrightarrow> index xs (int n) = Inr (xs ! n)"
  by (simp add: index_def)

lemma cyclic_offset_nonneg:
  assumes "offsets s \<noteq> []" and "0 \<le> k"
  shows "cyclic_offset s k = Inr (offsets s ! (nat k mod length (offsets s)))"
proof -
  let ?n = "length (offsets s)"
  have n: "0 < int ?n" using assms(1) by simp
  have "k mod int ?n = int (nat k mod ?n)"
    using assms(2) by (simp add: zmod_int)
  moreover have "nat k mod ?n < ?n" using assms(1) by simp
  ultimately show ?thesis
    using assms(2) n by (simp add: cyclic_offset_def go_rem_nonneg index_nat)
qed

lemma cyclic_offset_params: "offsets s' = offsets s \<Longrightarrow> cyclic_offset s' k = cyclic_offset s k"
  by (simp add: cyclic_offset_def cong: sum.case_cong)

section \<open>Basic facts\<close>

lemma Next_zero:
  "scaled s = 0 \<Longrightarrow>
   Next s = (Inr \<lparr>Scaled = 1, Unscaled = wrap64 (unscaled s + wrap64 (start s + 1))\<rparr>,
             s\<lparr>unscaled := wrap64 (unscaled s + wrap64 (start s + 1)), scaled := 1\<rparr>)"
  by (simp add: Next_def result_of_def wrap64_1)

lemma Next_pos:
  assumes "1 \<le> scaled s" and "scaled s < 2 ^ 63" and "offsets s \<noteq> []"
  shows "Next s = (Inr \<lparr>Scaled = wrap64 (scaled s + 1),
                  Unscaled = wrap64 (unscaled s
                               + offsets s ! (nat (scaled s - 1) mod length (offsets s)))\<rparr>,
             s\<lparr>unscaled := wrap64 (unscaled s
                               + offsets s ! (nat (scaled s - 1) mod length (offsets s))),
               scaled := wrap64 (scaled s + 1)\<rparr>)"
proof -
  have "wrap64 (scaled s - 1) = scaled s - 1"
    using assms(1,2) by (intro wrap64_between) simp_all
  then show ?thesis
    using assms by (simp add: Next_def result_of_def cyclic_offset_nonneg)
qed

lemma Prev_one:
  "scaled s = 1 \<Longrightarrow>
   Prev s = (Inr \<lparr>Scaled = 0, Unscaled = wrap64 (unscaled s - wrap64 (start s + 1))\<rparr>,
             s\<lparr>unscaled := wrap64 (unscaled s - wrap64 (start s + 1)), scaled := 0\<rparr>)"
  by (simp add: Prev_def result_of_def wrap64_0)

lemma Prev_pos:
  assumes "2 \<le> scaled s" and "scaled s < 2 ^ 63" and "offsets s \<noteq> []"
  shows "Prev s = (Inr \<lparr>Scaled = scaled s - 1,
                  Unscaled = wrap64 (unscaled s
                               - offsets s ! (nat (scaled s - 2) mod length (offsets s)))\<rparr>,
             s\<lparr>unscaled := wrap64 (unscaled s
                               - offsets s ! (nat (scaled s - 2) mod length (offsets s))),
               scaled := scaled s - 1\<rparr>)"
proof -
  have "wrap64 (scaled s - 2) = scaled s - 2" "wrap64 (scaled s - 1) = scaled s - 1"
    using assms(1,2) by (intro wrap64_between; simp)+
  then show ?thesis
    using assms by (simp add: Prev_def result_of_def cyclic_offset_nonneg)
qed

lemma Next_then_Prev:
  assumes "Next s = (Inr r, s')" and sc: "fits64 (scaled s)" and un: "fits64 (unscaled s)"
  shows "Prev s' = (Inr (result_of s), s)"
proof (cases "scaled s = 0")
  case True
  have s': "s' = s\<lparr>unscaled := wrap64 (unscaled s + wrap64 (start s + 1)), scaled := 1\<rparr>"
    using assms(1) Next_zero [OF True] by simp
  have "wrap64 (wrap64 (unscaled s + wrap64 (start s + 1)) - wrap64 (start s + 1)) = unscaled s"
    using un by (rule wrap64_add_diff)
  then show ?thesis
    using True unfolding s' by (simp add: Prev_one result_of_def)
next
  case False
  obtain d where d: "cyclic_offset s (wrap64 (scaled s - 1)) = Inr d"
    and s': "s' = s\<lparr>unscaled := wrap64 (unscaled s + d), scaled := wrap64 (scaled s + 1)\<rparr>"
    using assms(1) False by (auto simp: Next_def Let_def split: sum.splits)
  have rt: "wrap64 (wrap64 (scaled s + 1) - 1) = scaled s"
    using sc by (rule wrap64_add_diff)
  have "wrap64 (scaled s + 1) \<noteq> 1"
  proof
    assume "wrap64 (scaled s + 1) = 1"
    with rt have "scaled s = 0" by (simp add: wrap64_0)
    with False show False ..
  qed
  moreover have "wrap64 (wrap64 (scaled s + 1) - 2) = wrap64 (scaled s - 1)"
    by (simp add: wrap64_diff_left)
  then have "cyclic_offset s' (wrap64 (scaled s' - 2)) = Inr d"
    using d cyclic_offset_params [of s' s] by (simp add: s')
  moreover have "wrap64 (wrap64 (unscaled s + d) - d) = unscaled s"
    using un by (rule wrap64_add_diff)
  ultimately show ?thesis
    using rt by (simp add: Prev_def s' result_of_def)
qed

lemma Prev_then_Next:
  assumes "Prev s = (Inr r, s')" and sc: "fits64 (scaled s)" and un: "fits64 (unscaled s)"
  shows "Next s' = (Inr (result_of s), s)"
proof (cases "scaled s = 1")
  case True
  have s': "s' = s\<lparr>unscaled := wrap64 (unscaled s - wrap64 (start s + 1)), scaled := 0\<rparr>"
    using assms(1) Prev_one [OF True] by simp
  have "wrap64 (wrap64 (unscaled s - wrap64 (start s + 1)) + wrap64 (start s + 1)) = unscaled s"
    using un by (rule wrap64_diff_add)
  then show ?thesis
    using True unfolding s' by (simp add: Next_zero result_of_def)
next
  case False
  obtain d where d: "cyclic_offset s (wrap64 (scaled s - 2)) = Inr d"
    and s': "s' = s\<lparr>unscaled := wrap64 (unscaled s - d), scaled := wrap64 (scaled s - 1)\<rparr>"
    using assms(1) False by (auto simp: Prev_def Let_def split: sum.splits)
  have rt: "wrap64 (wrap64 (scaled s - 1) + 1) = scaled s"
    using sc by (rule wrap64_diff_add)
  have "wrap64 (scaled s - 1) \<noteq> 0"
  proof
    assume "wrap64 (scaled s - 1) = 0"
    with rt have "scaled s = 1" by (simp add: wrap64_1)
    with False show False ..
  qed
  moreover have "wrap64 (wrap64 (scaled s - 1) - 1) = wrap64 (scaled s - 2)"
    by (simp add: wrap64_diff_left)
  then have "cyclic_offset s' (wrap64 (scaled s' - 1)) = Inr d"
    using d cyclic_offset_params [of s' s] by (simp add: s')
  moreover have "wrap64 (wrap64 (unscaled s - d) + d) = unscaled s"
    using un by (rule wrap64_diff_add)
  ultimately show ?thesis
    using rt by (simp add: Next_def s' result_of_def)
qed

lemma Next_returns:
  "offsets s \<noteq> [] \<Longrightarrow> 0 \<le> scaled s \<Longrightarrow> scaled s < 2 ^ 63 \<Longrightarrow> \<exists>r s'. Next s = (Inr r, s')"
  using Next_zero [of s] Next_pos [of s] by (cases "scaled s = 0") auto

lemma Prev_returns:
  "offsets s \<noteq> [] \<Longrightarrow> 1 \<le> scaled s \<Longrightarrow> scaled s < 2 ^ 63 \<Longrightarrow> \<exists>r s'. Prev s = (Inr r, s')"
  using Prev_one [of s] Prev_pos [of s] by (cases "scaled s = 1") auto

lemma same_params_eq:
  "same_params s s' \<longleftrightarrow> s' = s\<lparr>scaled := scaled s', unscaled := unscaled s'\<rparr>"
  by (cases s, cases s') (auto simp: same_params_def)

lemma same_params_refl: "same_params s s"
  by (simp add: same_params_def)

lemma same_params_trans: "same_params s s' \<Longrightarrow> same_params s' s'' \<Longrightarrow> same_params s s''"
  by (simp add: same_params_def)

lemma Next_same_params: "same_params s (snd (Next s))"
  by (simp add: Next_def same_params_def Let_def split: sum.splits)

lemma Prev_same_params: "same_params s (snd (Prev s))"
  by (simp add: Prev_def same_params_def Let_def split: sum.splits)

text \<open>
  What every run of the loop keeps: a property of the receiver that the two
  assignments of the loop body keep is kept by the whole loop.
\<close>

lemma goto_loop_keeps:
  assumes "P s"
    and "\<And>s a. P s \<Longrightarrow> P (s\<lparr>scaled := wrap64 a\<rparr>)"
    and "\<And>s a. P s \<Longrightarrow> P (s\<lparr>unscaled := wrap64 a\<rparr>)"
  shows "P (snd (goto_loop v gi i s))"
  using assms(1)
proof (induction v gi i s rule: goto_loop.induct)
  case (1 v gi i s)
  show ?case
  proof (cases "go_rem v (lcd s)")
    case (Inl e)
    then show ?thesis using "1.prems" by (subst goto_loop.simps) simp
  next
    case (Inr r)
    show ?thesis
    proof (cases "i < r")
      case False
      with Inr show ?thesis using "1.prems" by (subst goto_loop.simps) simp
    next
      case True
      let ?s1 = "s\<lparr>scaled := wrap64 (scaled s + 1)\<rparr>"
      have s1: "P ?s1" using "1.prems" by (rule assms(2))
      show ?thesis
      proof (cases "index (offsets ?s1) gi")
        case (Inl e)
        with Inr True s1 show ?thesis
          by (subst goto_loop.simps) simp
      next
        case d: (Inr d)
        have "P (?s1\<lparr>unscaled := wrap64 (unscaled ?s1 + d)\<rparr>)"
          using s1 by (rule assms(3))
        then have "P (snd (goto_loop v (gi + 1) (wrap64 (i + d))
                             (?s1\<lparr>unscaled := wrap64 (unscaled ?s1 + d)\<rparr>)))"
          by (rule "1.IH" [OF Inr True refl d])
        then show ?thesis
          using Inr True d by (subst goto_loop.simps) simp
      qed
    qed
  qed
qed

lemma goto_loop_same_params: "same_params s (snd (goto_loop v gi i s))"
  by (rule goto_loop_keeps [where P = "same_params s"]) (simp_all add: same_params_def)

lemma GoTo_keeps:
  assumes "P s"
    and "\<And>s a. P s \<Longrightarrow> P (s\<lparr>scaled := wrap64 a\<rparr>)"
    and "\<And>s a. P s \<Longrightarrow> P (s\<lparr>unscaled := wrap64 a\<rparr>)"
    and "\<And>s. P s \<Longrightarrow> P (s\<lparr>unscaled := 0\<rparr>)"
  shows "P (snd (GoTo v s))"
proof (cases "go_quot v (lcd s)")
  case (Inl e)
  then show ?thesis using assms(1) by (simp add: GoTo_def)
next
  case (Inr wc)
  define s2 where
    "s2 = s\<lparr>scaled := wrap64 (wc * int (length (offsets s))),
            unscaled := wrap64 (wrap64 (wrap64 (wc * lcd s) + start s) + 1)\<rparr>"
  obtain o3 s3 where l: "goto_loop v 0 (start s) s2 = (o3, s3)"
    by (cases "goto_loop v 0 (start s) s2") auto
  have "P s2"
    unfolding s2_def using assms(1) by (intro assms(2,3))
  then have "P (snd (goto_loop v 0 (start s) s2))"
    using assms(2,3) by (rule goto_loop_keeps)
  then have s3: "P s3" using l by simp
  have u: "P (s3\<lparr>unscaled := wrap64 a\<rparr>)" for a
    using s3 by (rule assms(3))
  have z: "P (s3\<lparr>unscaled := 0\<rparr>)"
    using s3 by (rule assms(4))
  have uz: "P (s3\<lparr>unscaled := wrap64 a, unscaled := 0\<rparr>)" for a
    using u [of a] by (rule assms(4))
  show ?thesis
    using Inr l s3 u z uz unfolding GoTo_def s2_def
    by (auto simp: Let_def split: sum.splits if_splits)
qed

lemma GoTo_same_params: "same_params s (snd (GoTo v s))"
  by (rule GoTo_keeps [where P = "same_params s"]) (simp_all add: same_params_def)

lemma GoTo_cursor_irrelevant:
  "lcd s \<noteq> 0 \<Longrightarrow> GoTo v (s\<lparr>scaled := a, unscaled := b\<rparr>) = GoTo v s"
  by (simp add: GoTo_def go_quot_def)

lemma GoTo_idem: "GoTo v (snd (GoTo v s)) = GoTo v s"
proof -
  have *: "snd (GoTo v s) = s\<lparr>scaled := scaled (snd (GoTo v s)), unscaled := unscaled (snd (GoTo v s))\<rparr>"
    using GoTo_same_params [of s v] by (simp only: same_params_eq)
  show ?thesis
  proof (cases "lcd s = 0")
    case True
    then show ?thesis by (simp add: GoTo_def go_quot_def)
  next
    case False
    show ?thesis
      by (subst *) (rule GoTo_cursor_irrelevant [OF False])
  qed
qed

lemma goto_loop_stop: "go_rem v (lcd s) = Inr r \<Longrightarrow> r \<le> i \<Longrightarrow> goto_loop v gi i s = (Inr gi, s)"
  by (subst goto_loop.simps) simp

lemma GoTo_zero:
  assumes "0 \<le> start s" and "0 < lcd s"
  shows "GoTo 0 s = (Inr \<lparr>Scaled = 0, Unscaled = 0\<rparr>, s\<lparr>scaled := 0, unscaled := 0\<rparr>)"
proof -
  have q: "go_quot 0 (lcd s) = Inr 0" and r: "go_rem 0 (lcd s) = Inr 0"
    using assms(2) by (simp_all add: go_quot_def quot_def go_rem_def rem_def wrap64_0)
  show ?thesis
    using assms(1) q r
    by (simp add: GoTo_def goto_loop_stop result_of_def wrap64_0)
qed

lemma do_call_same_params: "same_params s (snd (do_call c s))"
  by (cases c) (simp_all add: do_call_def Next_same_params Prev_same_params GoTo_same_params)

lemma run_same_params: "same_params s (run cs s)"
proof (induction cs arbitrary: s)
  case Nil
  show ?case by (simp add: same_params_refl)
next
  case (Cons c cs)
  show ?case
    using same_params_trans [OF do_call_same_params [of s c] Cons.IH [of "snd (do_call c s)"]]
    by simp
qed

text \<open>The two fields of the cursor hold 64-bit values, whatever is called.\<close>

lemma do_call_cursor64: "cursor64 s \<Longrightarrow> cursor64 (snd (do_call c s))"
proof (cases c)
  case Advance
  assume "cursor64 s"
  with Advance show ?thesis
    by (auto simp: do_call_def Next_def Let_def cursor64_def fits64_wrap64 split: sum.splits)
next
  case Retreat
  assume "cursor64 s"
  with Retreat show ?thesis
    by (auto simp: do_call_def Prev_def Let_def cursor64_def fits64_wrap64 split: sum.splits)
next
  case (SeekTo v)
  assume "cursor64 s"
  then have "cursor64 (snd (GoTo v s))"
    by (rule GoTo_keeps) (simp_all add: cursor64_def fits64_wrap64 fits64_0)
  with SeekTo show ?thesis by (simp add: do_call_def)
qed

lemma run_cursor64: "cursor64 s \<Longrightarrow> cursor64 (run cs s)"
  by (induction cs arbitrary: s) (simp_all add: do_call_cursor64)

lemma Next_Inr:
  "Next s = (Inr r, s') \<Longrightarrow> r = result_of s' \<and> scaled s' = wrap64 (scaled s + 1)"
  by (auto simp: Next_def Let_def split: sum.splits if_splits)

lemma upt_1_Suc_Suc: "[1..<Suc (Suc n)] = 1 # map Suc [1..<Suc n]"
proof -
  have "[1..<Suc (Suc n)] = 1 # [Suc 1..<Suc (Suc n)]"
    by (rule upt_conv_Cons) simp
  also have "[Suc 1..<Suc (Suc n)] = map Suc [1..<Suc n]"
    by (simp only: map_Suc_upt)
  finally show ?thesis .
qed

lemma advances_scaled:
  "offsets s \<noteq> [] \<Longrightarrow> 0 \<le> scaled s \<Longrightarrow> scaled s + int n < 2 ^ 63 \<Longrightarrow>
   (\<exists>rs. advances n s = map Inr rs \<and> map Scaled rs = map (\<lambda>k. scaled s + int k) [1..<Suc n])"
proof (induction n arbitrary: s)
  case 0
  show ?case by simp
next
  case (Suc n)
  have hi: "scaled s + 1 < 2 ^ 63" using Suc.prems(3) by simp
  obtain r s' where ns: "Next s = (Inr r, s')"
    using Next_returns [of s] Suc.prems hi by auto
  have w: "wrap64 (scaled s + 1) = scaled s + 1"
    using Suc.prems(2) hi by (intro wrap64_between) simp_all
  have sc: "scaled s' = scaled s + 1" and r: "Scaled r = scaled s + 1"
    using Next_Inr [OF ns] w by (simp_all add: result_of_def)
  have offs: "offsets s' = offsets s"
    using Next_same_params [of s] ns by (simp add: same_params_def)
  obtain rs where rs: "advances n s' = map Inr rs"
      "map Scaled rs = map (\<lambda>k. scaled s' + int k) [1..<Suc n]"
    using Suc.IH [of s'] Suc.prems sc offs by auto
  have "map Scaled (r # rs) = map (\<lambda>k. scaled s + int k) [1..<Suc (Suc n)]"
    unfolding upt_1_Suc_Suc using r rs(2) sc by (simp add: o_def add.assoc)
  moreover have "advances (Suc n) s = map Inr (r # rs)"
    using ns rs(1) by simp
  ultimately show ?case by blast
qed

section \<open>Next and Prev\<close>

text \<open>
  C3. \<^verbatim>\<open>Next\<close> adds \<open>start + 1\<close> to \<open>unscaled\<close> when \<open>scaled = 0\<close>, and
  otherwise (on a cursor with \<open>scaled \<ge> 1\<close> over a non-empty offsets slice) adds
  \<open>offsets[(scaled - 1) mod len(offsets)]\<close>; then it increments \<open>scaled\<close> and
  returns the updated pair. The additions are those of \<^verbatim>\<open>int64\<close>, which are
  the sums themselves when these fit. Hence \<open>N\<close> successive calls on a fresh
  index with non-empty offsets all return, with \<open>Scaled\<close> equal to
  \<open>1, 2, \<dots>, N\<close> in order (\<open>N\<close> itself being an \<^verbatim>\<open>int64\<close>).
\<close>

theorem Next_adds_offset_and_counts:
  "(scaled s = 0 \<longrightarrow>
      Next s = (Inr \<lparr>Scaled = 1, Unscaled = wrap64 (unscaled s + wrap64 (start s + 1))\<rparr>,
                s\<lparr>unscaled := wrap64 (unscaled s + wrap64 (start s + 1)), scaled := 1\<rparr>))
   \<and> (1 \<le> scaled s \<and> scaled s < 2 ^ 63 \<and> offsets s \<noteq> [] \<longrightarrow>
      Next s = (Inr \<lparr>Scaled = wrap64 (scaled s + 1),
                     Unscaled = wrap64 (unscaled s
                       + offsets s ! (nat (scaled s - 1) mod length (offsets s)))\<rparr>,
                s\<lparr>unscaled := wrap64 (unscaled s
                       + offsets s ! (nat (scaled s - 1) mod length (offsets s))),
                  scaled := wrap64 (scaled s + 1)\<rparr>))
   \<and> (fits64 x \<longrightarrow> wrap64 x = x)
   \<and> (offs \<noteq> [] \<and> int N < 2 ^ 63 \<longrightarrow>
      (\<exists>rs. advances N (NewSegmentedIndex st l offs) = map Inr rs
            \<and> map Scaled rs = map int [1..<Suc N]))"
proof (intro conjI impI)
  assume "offs \<noteq> [] \<and> int N < 2 ^ 63"
  then show "\<exists>rs. advances N (NewSegmentedIndex st l offs) = map Inr rs
                \<and> map Scaled rs = map int [1..<Suc N]"
    using advances_scaled [of "NewSegmentedIndex st l offs" N]
    by (simp add: NewSegmentedIndex_def)
qed (simp_all add: Next_zero Next_pos wrap64_id)

theorem Next_adds_offset_and_counts_witness:
  "scaled (NewSegmentedIndex 0 3 [2, 1]) = 0
   \<and> Next (NewSegmentedIndex 0 3 [2, 1])
       = (Inr \<lparr>Scaled = 1, Unscaled = 1\<rparr>,
          \<lparr>start = 0, lcd = 3, offsets = [2, 1], scaled = 1, unscaled = 1\<rparr>)
   \<and> Next \<lparr>start = 0, lcd = 3, offsets = [2, 1], scaled = 2, unscaled = 3\<rparr>
       = (Inr \<lparr>Scaled = 3, Unscaled = 4\<rparr>,
          \<lparr>start = 0, lcd = 3, offsets = [2, 1], scaled = 3, unscaled = 4\<rparr>)
   \<and> fits64 4 \<and> wrap64 4 = 4
   \<and> (\<exists>rs. advances 4 (NewSegmentedIndex 0 3 [2, 1]) = map Inr rs
          \<and> map Scaled rs = [1, 2, 3, 4])"
proof -
  let ?init = "NewSegmentedIndex 0 3 [2, 1]"
  let ?s = "\<lparr>start = 0, lcd = 3, offsets = [2, 1], scaled = 2, unscaled = 3\<rparr>"
  have f: "fits64 4" by (simp add: fits64_def)
  have w: "wrap64 1 = 1" "wrap64 3 = 3" "wrap64 4 = 4"
    by (simp_all add: wrap64_def)
  have z: "scaled ?init = 0" by (simp add: NewSegmentedIndex_def)
  have p: "1 \<le> scaled ?s \<and> scaled ?s < 2 ^ 63 \<and> offsets ?s \<noteq> []" by simp
  have n: "[2, 1 :: int] \<noteq> [] \<and> int 4 < 2 ^ 63" by simp
  have a: "Next ?init = (Inr \<lparr>Scaled = 1, Unscaled = 1\<rparr>,
          \<lparr>start = 0, lcd = 3, offsets = [2, 1], scaled = 1, unscaled = 1\<rparr>)"
    using Next_adds_offset_and_counts [of ?init 4 "[2, 1]" 4 0 3] z
    by (simp add: NewSegmentedIndex_def w)
  have b: "Next ?s = (Inr \<lparr>Scaled = 3, Unscaled = 4\<rparr>,
          \<lparr>start = 0, lcd = 3, offsets = [2, 1], scaled = 3, unscaled = 4\<rparr>)"
    using Next_adds_offset_and_counts [of ?s 4 "[2, 1]" 4 0 3] p
    by (simp add: w)
  have c: "\<exists>rs. advances 4 ?init = map Inr rs \<and> map Scaled rs = [1, 2, 3, 4]"
    using Next_adds_offset_and_counts [of ?s 4 "[2, 1]" 4 0 3] n
    by (simp add: upt_rec)
  show ?thesis
    using z a b c f w(3) by simp
qed

text \<open>
  C4. \<^verbatim>\<open>Prev\<close> with \<open>scaled \<ge> 1\<close> subtracts \<open>start + 1\<close> from \<open>unscaled\<close> when
  \<open>scaled = 1\<close>, and otherwise (over a non-empty offsets slice) subtracts
  \<open>offsets[(scaled - 2) mod len(offsets)]\<close>; then it decrements \<open>scaled\<close> and
  returns the updated pair. The subtractions are those of \<^verbatim>\<open>int64\<close>, which
  are the differences themselves when these fit.
\<close>

theorem Prev_subtracts_offset:
  "(scaled s = 1 \<longrightarrow>
      Prev s = (Inr \<lparr>Scaled = 0, Unscaled = wrap64 (unscaled s - wrap64 (start s + 1))\<rparr>,
                s\<lparr>unscaled := wrap64 (unscaled s - wrap64 (start s + 1)), scaled := 0\<rparr>))
   \<and> (2 \<le> scaled s \<and> scaled s < 2 ^ 63 \<and> offsets s \<noteq> [] \<longrightarrow>
      Prev s = (Inr \<lparr>Scaled = scaled s - 1,
                     Unscaled = wrap64 (unscaled s
                       - offsets s ! (nat (scaled s - 2) mod length (offsets s)))\<rparr>,
                s\<lparr>unscaled := wrap64 (unscaled s
                       - offsets s ! (nat (scaled s - 2) mod length (offsets s))),
                  scaled := scaled s - 1\<rparr>))
   \<and> (fits64 x \<longrightarrow> wrap64 x = x)"
  by (simp add: Prev_one Prev_pos wrap64_id)

theorem Prev_subtracts_offset_witness:
  "Prev \<lparr>start = 0, lcd = 3, offsets = [2, 1], scaled = 1, unscaled = 1\<rparr>
       = (Inr \<lparr>Scaled = 0, Unscaled = 0\<rparr>,
          \<lparr>start = 0, lcd = 3, offsets = [2, 1], scaled = 0, unscaled = 0\<rparr>)
   \<and> Prev \<lparr>start = 0, lcd = 3, offsets = [2, 1], scaled = 3, unscaled = 4\<rparr>
       = (Inr \<lparr>Scaled = 2, Unscaled = 3\<rparr>,
          \<lparr>start = 0, lcd = 3, offsets = [2, 1], scaled = 2, unscaled = 3\<rparr>)
   \<and> fits64 3 \<and> wrap64 3 = 3"
proof -
  have f: "fits64 3" by (simp add: fits64_def)
  have w: "wrap64 0 = 0" "wrap64 1 = 1" "wrap64 3 = 3"
    by (simp_all add: wrap64_def)
  show ?thesis
    using Prev_subtracts_offset
            [of "\<lparr>start = 0, lcd = 3, offsets = [2, 1], scaled = 1, unscaled = 1\<rparr>" 3]
          Prev_subtracts_offset
            [of "\<lparr>start = 0, lcd = 3, offsets = [2, 1], scaled = 3, unscaled = 4\<rparr>" 3]
          f
    by (simp add: w)
qed

text \<open>
  C5. In every state reached from a fresh index by calls of \<^verbatim>\<open>Next\<close>,
  \<^verbatim>\<open>Prev\<close> and \<^verbatim>\<open>GoTo\<close>: a \<^verbatim>\<open>Next\<close> that returns, followed by
  \<^verbatim>\<open>Prev\<close>, gives back the state it started from, and \<^verbatim>\<open>Prev\<close> returns the
  prior pair; with \<open>scaled \<ge> 1\<close>, the same holds for \<^verbatim>\<open>Prev\<close> followed by
  \<^verbatim>\<open>Next\<close>. And the calls do return: over non-empty offsets, \<^verbatim>\<open>Next\<close>
  returns when \<open>scaled \<ge> 0\<close>, and \<^verbatim>\<open>Prev\<close> when \<open>scaled \<ge> 1\<close>.
\<close>

theorem Next_Prev_inverse:
  assumes "s = run cs (NewSegmentedIndex st l offs)"
  shows "(\<forall>r s'. Next s = (Inr r, s') \<longrightarrow> Prev s' = (Inr (result_of s), s))
     \<and> (1 \<le> scaled s \<longrightarrow>
          (\<forall>r s'. Prev s = (Inr r, s') \<longrightarrow> Next s' = (Inr (result_of s), s)))
     \<and> (offs \<noteq> [] \<and> 0 \<le> scaled s \<longrightarrow> (\<exists>r s'. Next s = (Inr r, s')))
     \<and> (offs \<noteq> [] \<and> 1 \<le> scaled s \<longrightarrow> (\<exists>r s'. Prev s = (Inr r, s')))"
proof -
  let ?init = "NewSegmentedIndex st l offs"
  have offs: "offsets s = offs"
    using run_same_params [of ?init cs] assms
    by (simp add: same_params_def NewSegmentedIndex_def)
  have "cursor64 ?init"
    by (simp add: cursor64_def NewSegmentedIndex_def fits64_0)
  then have "cursor64 s"
    unfolding assms by (rule run_cursor64)
  then have sc: "fits64 (scaled s)" and un: "fits64 (unscaled s)"
    by (simp_all add: cursor64_def)
  from sc have hi: "scaled s < 2 ^ 63" by (simp add: fits64_def)
  show ?thesis
    using offs hi Next_then_Prev [OF _ sc un] Prev_then_Next [OF _ sc un]
      Next_returns [of s] Prev_returns [of s]
    by blast
qed

theorem Next_Prev_inverse_witness:
  "run [Advance, Advance, Retreat, SeekTo 4] (NewSegmentedIndex 0 3 [2, 1])
       = \<lparr>start = 0, lcd = 3, offsets = [2, 1], scaled = 3, unscaled = 4\<rparr>
   \<and> Next \<lparr>start = 0, lcd = 3, offsets = [2, 1], scaled = 3, unscaled = 4\<rparr>
       = (Inr \<lparr>Scaled = 4, Unscaled = 6\<rparr>,
          \<lparr>start = 0, lcd = 3, offsets = [2, 1], scaled = 4, unscaled = 6\<rparr>)
   \<and> Prev \<lparr>start = 0, lcd = 3, offsets = [2, 1], scaled = 4, unscaled = 6\<rparr>
       = (Inr \<lparr>Scaled = 3, Unscaled = 4\<rparr>,
          \<lparr>start = 0, lcd = 3, offsets = [2, 1], scaled = 3, unscaled = 4\<rparr>)
   \<and> Prev \<lparr>start = 0, lcd = 3, offsets = [2, 1], scaled = 3, unscaled = 4\<rparr>
       = (Inr \<lparr>Scaled = 2, Unscaled = 3\<rparr>,
          \<lparr>start = 0, lcd = 3, offsets = [2, 1], scaled = 2, unscaled = 3\<rparr>)
   \<and> Next \<lparr>start = 0, lcd = 3, offsets = [2, 1], scaled = 2, unscaled = 3\<rparr>
       = (Inr \<lparr>Scaled = 3, Unscaled = 4\<rparr>,
          \<lparr>start = 0, lcd = 3, offsets = [2, 1], scaled = 3, unscaled = 4\<rparr>)"
proof -
  let ?init = "NewSegmentedIndex 0 3 [2, 1]"
  let ?cs = "[Advance, Advance, Retreat, SeekTo 4]"
  let ?s = "\<lparr>start = 0, lcd = 3, offsets = [2, 1], scaled = 3, unscaled = 4\<rparr>"
  let ?up = "\<lparr>start = 0, lcd = 3, offsets = [2, 1], scaled = 4, unscaled = 6\<rparr>"
  let ?down = "\<lparr>start = 0, lcd = 3, offsets = [2, 1], scaled = 2, unscaled = 3\<rparr>"
  have r: "?s = run ?cs ?init" by code_simp
  have n: "Next ?s = (Inr \<lparr>Scaled = 4, Unscaled = 6\<rparr>, ?up)" by code_simp
  have b: "Prev ?s = (Inr \<lparr>Scaled = 2, Unscaled = 3\<rparr>, ?down)" by code_simp
  have sc: "1 \<le> scaled ?s" by simp
  note all = Next_Prev_inverse [OF r]
  have "\<forall>r s'. Next ?s = (Inr r, s') \<longrightarrow> Prev s' = (Inr (result_of ?s), ?s)"
    using all by (rule conjunct1)
  with n have "Prev ?up = (Inr (result_of ?s), ?s)" by blast
  then have q: "Prev ?up = (Inr \<lparr>Scaled = 3, Unscaled = 4\<rparr>, ?s)"
    by (simp add: result_of_def)
  have "\<forall>r s'. Prev ?s = (Inr r, s') \<longrightarrow> Next s' = (Inr (result_of ?s), ?s)"
    using all sc by blast
  with b have "Next ?down = (Inr (result_of ?s), ?s)" by blast
  then have f: "Next ?down = (Inr \<lparr>Scaled = 3, Unscaled = 4\<rparr>, ?s)"
    by (simp add: result_of_def)
  show ?thesis
    by (intro conjI) (rule r [symmetric], rule n, rule q, rule b, rule f)
qed

section \<open>The frame of the three methods\<close>

text \<open>
  C8. Whatever calls of \<^verbatim>\<open>Next\<close>, \<^verbatim>\<open>Prev\<close> and \<^verbatim>\<open>GoTo\<close> are made on an
  index, and whether or not they return, its \<open>start\<close>, \<open>lcd\<close> and \<open>offsets\<close>
  are those given to \<^verbatim>\<open>NewSegmentedIndex\<close>: each call leaves the three fields
  of its receiver as they were.
\<close>

theorem params_fixed_at_construction:
  "start (run cs (NewSegmentedIndex st l offs)) = st
   \<and> lcd (run cs (NewSegmentedIndex st l offs)) = l
   \<and> offsets (run cs (NewSegmentedIndex st l offs)) = offs
   \<and> same_params s (snd (Next s))
   \<and> same_params s (snd (Prev s))
   \<and> same_params s (snd (GoTo v s))"
  using run_same_params [of "NewSegmentedIndex st l offs" cs]
  by (simp add: same_params_def NewSegmentedIndex_def
        Next_same_params [unfolded same_params_def]
        Prev_same_params [unfolded same_params_def]
        GoTo_same_params [unfolded same_params_def])

section \<open>GoTo does not read the cursor\<close>

text \<open>
  C9. On an index with \<open>lcd \<noteq> 0\<close>, the outcome of \<^verbatim>\<open>GoTo v\<close> and the state it
  leaves are the same from any two cursors \<open>(scaled, unscaled)\<close>; a second
  \<^verbatim>\<open>GoTo v\<close> right after the first gives the same outcome and state; and with
  \<open>start \<ge> 0\<close> and \<open>lcd > 0\<close>, \<^verbatim>\<open>GoTo 0\<close> returns \<open>(0, 0)\<close> from any cursor.
\<close>

theorem GoTo_ignores_cursor:
  "(lcd s \<noteq> 0 \<longrightarrow> GoTo v (s\<lparr>scaled := a, unscaled := b\<rparr>) = GoTo v s)
   \<and> GoTo v (snd (GoTo v s)) = GoTo v s
   \<and> (0 \<le> start s \<and> 0 < lcd s \<longrightarrow>
        GoTo 0 s = (Inr \<lparr>Scaled = 0, Unscaled = 0\<rparr>, s\<lparr>scaled := 0, unscaled := 0\<rparr>))"
  by (simp add: GoTo_cursor_irrelevant GoTo_idem GoTo_zero)

theorem GoTo_ignores_cursor_witness:
  "GoTo 5 \<lparr>start = 0, lcd = 3, offsets = [2, 1], scaled = 7, unscaled = 10\<rparr>
     = GoTo 5 \<lparr>start = 0, lcd = 3, offsets = [2, 1], scaled = 0, unscaled = 0\<rparr>
   \<and> GoTo 0 \<lparr>start = 0, lcd = 3, offsets = [2, 1], scaled = 7, unscaled = 10\<rparr>
     = (Inr \<lparr>Scaled = 0, Unscaled = 0\<rparr>,
        \<lparr>start = 0, lcd = 3, offsets = [2, 1], scaled = 0, unscaled = 0\<rparr>)"
  using GoTo_ignores_cursor
          [of "\<lparr>start = 0, lcd = 3, offsets = [2, 1], scaled = 0, unscaled = 0\<rparr>" 5 7 10]
        GoTo_ignores_cursor
          [of "\<lparr>start = 0, lcd = 3, offsets = [2, 1], scaled = 7, unscaled = 10\<rparr>" 5 7 10]
  by simp

section \<open>The shared indexes\<close>

lemma XShared_empty:
  "XSharedSegmentedIndex striping GetState ctx [] m
     = (Inl (Error ''empty name provided to SharedArray's constructor''), m)"
  by (simp add: XSharedSegmentedIndex_def)

lemma get_locked_present:
  "data m name = Some a \<Longrightarrow> get_locked striping state name m = (Inr a, m)"
  by (simp add: get_locked_def)

lemma get_locked_keeps:
  "data m n = Some a \<Longrightarrow> data (snd (get_locked striping state name m)) n = Some a"
  by (auto simp: get_locked_def Let_def split: option.splits sum.splits prod.splits)

lemma get_locked_stores:
  "get_locked striping state name m = (Inr a, m1) \<Longrightarrow> data m1 name = Some a"
  by (auto simp: get_locked_def Let_def split: option.splits sum.splits prod.splits)

lemma get_locked_grows:
  "length (objects m) < length (objects (snd (get_locked striping state name m)))
   \<Longrightarrow> \<exists>a. data (snd (get_locked striping state name m)) name = Some a"
  by (auto simp: get_locked_def Let_def split: option.splits sum.splits prod.splits)

lemma XShared_nonempty:
  "name \<noteq> [] \<Longrightarrow>
   XSharedSegmentedIndex striping GetState ctx name m
     = (case data m name of
          Some a \<Rightarrow> (Inr a, m)
        | None \<Rightarrow> get_locked striping (GetState ctx) name m)"
  by (simp add: XSharedSegmentedIndex_def get_def)

lemma XShared_present:
  "name \<noteq> [] \<Longrightarrow> data m name = Some a \<Longrightarrow>
   XSharedSegmentedIndex striping GetState ctx name m = (Inr a, m)"
  by (simp add: XShared_nonempty)

lemma XShared_stores:
  "XSharedSegmentedIndex striping GetState ctx name m = (Inr a, m1) \<Longrightarrow> data m1 name = Some a"
  by (cases "name = []")
     (auto simp: XShared_empty XShared_nonempty get_locked_stores split: option.splits)

lemma XShared_keeps:
  "data m n = Some a \<Longrightarrow>
   data (snd (XSharedSegmentedIndex striping GetState ctx name m)) n = Some a"
  by (cases "name = []")
     (auto simp: XShared_empty XShared_nonempty get_locked_keeps split: option.splits)

lemma XShared_grows:
  "length (objects m) < length (objects (snd (XSharedSegmentedIndex striping GetState ctx name m)))
   \<Longrightarrow> \<exists>a. data (snd (XSharedSegmentedIndex striping GetState ctx name m)) name = Some a"
  by (cases "name = []")
     (auto simp: XShared_empty XShared_nonempty get_locked_grows split: option.splits)

lemma happen_keeps:
  "data m n = Some a \<Longrightarrow> data (happen striping GetState ev m) n = Some a"
  by (cases ev) (simp_all add: happen_def XShared_keeps get_locked_keeps)

lemma lifetime_keeps:
  "data m n = Some a \<Longrightarrow> data (lifetime striping GetState evs m) n = Some a"
  by (induction evs arbitrary: m) (simp_all add: happen_keeps)

lemma happen_for_present:
  assumes "data m n = Some a" and "for_name ev n"
  shows "happen striping GetState ev m = m"
proof (cases ev)
  case (GetOrCreate ctx name)
  with assms show ?thesis
    by (cases "n = []") (simp_all add: happen_def XShared_empty XShared_present)
next
  case (Overtaken ctx name)
  with assms show ?thesis
    by (simp add: happen_def get_locked_present)
next
  case (Invoke b c)
  with assms show ?thesis by simp
qed

lemma happen_grows:
  assumes "for_name ev n"
    and "length (objects m) < length (objects (happen striping GetState ev m))"
  shows "\<exists>a. data (happen striping GetState ev m) n = Some a"
proof (cases ev)
  case (GetOrCreate ctx name)
  with assms XShared_grows [of m striping GetState ctx n] show ?thesis
    by (simp add: happen_def)
next
  case (Overtaken ctx name)
  with assms get_locked_grows [of m striping "GetState ctx" n] show ?thesis
    by (simp add: happen_def)
next
  case (Invoke b c)
  with assms show ?thesis by simp
qed

lemma constructions_none:
  "data m n = Some a \<Longrightarrow> constructions striping GetState n evs m = 0"
proof (induction evs arbitrary: m)
  case Nil
  show ?case by simp
next
  case (Cons ev evs)
  have rest: "constructions striping GetState n evs (happen striping GetState ev m) = 0"
    using Cons.IH [OF happen_keeps [OF Cons.prems]] .
  show ?case
  proof (cases "for_name ev n")
    case True
    then have "happen striping GetState ev m = m"
      using Cons.prems by (simp add: happen_for_present)
    with rest show ?thesis by simp
  next
    case False
    with rest show ?thesis by simp
  qed
qed

lemma constructions_le_1: "constructions striping GetState n evs m \<le> 1"
proof (induction evs arbitrary: m)
  case Nil
  show ?case by simp
next
  case (Cons ev evs)
  let ?m' = "happen striping GetState ev m"
  show ?case
  proof (cases "for_name ev n \<and> length (objects m) < length (objects ?m')")
    case True
    then obtain a where "data ?m' n = Some a"
      using happen_grows [of ev n m striping GetState] by blast
    then have "constructions striping GetState n evs ?m' = 0"
      by (rule constructions_none)
    with True show ?thesis by simp
  next
    case False
    then have "constructions striping GetState n (ev # evs) m
               = constructions striping GetState n evs ?m'"
      by (auto simp: Let_def)
    with Cons.IH [of ?m'] show ?thesis by simp
  qed
qed

text \<open>
  C6. Once a call of \<^verbatim>\<open>XSharedSegmentedIndex\<close> with a non-empty name has
  returned a pointer, then after anything that happens to the module, every call
  with that name (and every call that was overtaken while waiting for the lock)
  returns that same pointer and leaves the module as it is, so it constructs,
  replaces and removes nothing; the name stays mapped to the pointer; and no call
  for the name allocates. Counted from any module on, at most one call for a name
  ever allocates.
\<close>

theorem one_instance_per_name:
  assumes "name \<noteq> []"
    and "XSharedSegmentedIndex striping GetState ctx name m = (Inr a, m1)"
    and "m2 = lifetime striping GetState evs m1"
  shows "XSharedSegmentedIndex striping GetState ctx' name m2 = (Inr a, m2)
     \<and> get_locked striping (GetState ctx') name m2 = (Inr a, m2)
     \<and> data m2 name = Some a
     \<and> constructions striping GetState name evs m1 = 0
     \<and> constructions striping GetState name evs' m' \<le> 1"
proof -
  have m1: "data m1 name = Some a"
    using assms(2) by (rule XShared_stores)
  then have m2: "data m2 name = Some a"
    unfolding assms(3) by (rule lifetime_keeps)
  show ?thesis
  proof (intro conjI)
    show "XSharedSegmentedIndex striping GetState ctx' name m2 = (Inr a, m2)"
      using assms(1) m2 by (rule XShared_present)
    show "get_locked striping (GetState ctx') name m2 = (Inr a, m2)"
      using m2 by (rule get_locked_present)
    show "data m2 name = Some a" by (rule m2)
    show "constructions striping GetState name evs m1 = 0"
      using m1 by (rule constructions_none)
    show "constructions striping GetState name evs' m' \<le> 1"
      by (rule constructions_le_1)
  qed
qed

theorem one_instance_per_name_witness:
  "fst (XSharedSegmentedIndex (\<lambda>st. st) (\<lambda>c. c) (Some (Inr (0, [2, 1], 3))) ''vus'' New) = Inr 0
   \<and> (let m1 = snd (XSharedSegmentedIndex (\<lambda>st. st) (\<lambda>c. c) (Some (Inr (0, [2, 1], 3))) ''vus'' New);
           m2 = lifetime (\<lambda>st. st) (\<lambda>c. c)
                  [Invoke 0 Advance, GetOrCreate None ''data'',
                   Overtaken (Some (Inr (1, [3], 3))) ''vus''] m1
       in XSharedSegmentedIndex (\<lambda>st. st) (\<lambda>c. c) None ''vus'' m2 = (Inr 0, m2)
          \<and> data m2 ''vus'' = Some 0)"
proof -
  let ?striping = "\<lambda>st :: string + int \<times> int list \<times> int. st"
  let ?GetState = "\<lambda>c :: (string + int \<times> int list \<times> int) option. c"
  let ?first = "XSharedSegmentedIndex ?striping ?GetState (Some (Inr (0, [2, 1], 3))) ''vus'' New"
  let ?evs = "[Invoke 0 Advance, GetOrCreate None ''data'', Overtaken (Some (Inr (1, [3], 3))) ''vus'']"
  have n: "''vus'' \<noteq> []" by simp
  have f: "fst ?first = Inr 0"
    by (simp add: XSharedSegmentedIndex_def get_def get_locked_def New_def)
  then have c: "?first = (Inr 0, snd ?first)"
    by (simp add: prod_eq_iff)
  show ?thesis
    using f one_instance_per_name [OF n c refl, where evs = ?evs and ctx' = None]
    by (simp add: Let_def)
qed

text \<open>
  C7. With the empty name, \<^verbatim>\<open>XSharedSegmentedIndex\<close> panics with its error,
  whatever the context and its state are, and the module is as it was.
\<close>

theorem empty_name_panics:
  "XSharedSegmentedIndex striping GetState ctx '''' m
     = (Inl (Error ''empty name provided to SharedArray's constructor''), m)"
  by (rule XShared_empty)

section \<open>The walk of GoTo\<close>

lemma sum_list_take_Suc:
  "m < length xs \<Longrightarrow> sum_list (take (Suc m) xs) = sum_list (take m xs) + (xs ! m :: int)"
  by (simp add: take_Suc_conv_app_nth)

lemma sum_list_pos: "list_all (\<lambda>d. 0 < d) xs \<Longrightarrow> 0 \<le> sum_list (xs :: int list)"
  by (induction xs) simp_all

lemma length_le_sum_list: "list_all (\<lambda>d. 0 < d) xs \<Longrightarrow> int (length xs) \<le> sum_list xs"
  by (induction xs) auto



lemma goto_loop_step:
  assumes "go_rem v (lcd s) = Inr r" and "i < r" and "index (offsets s) gi = Inr d"
  shows "goto_loop v gi i s
         = goto_loop v (gi + 1) (wrap64 (i + d))
             (s\<lparr>scaled := wrap64 (scaled s + 1), unscaled := wrap64 (unscaled s + d)\<rparr>)"
  using assms by (subst goto_loop.simps) simp

text \<open>
  The loop from \<open>gi = len(pre)\<close> over \<open>offsets = pre @ post\<close>, when the rest of
  the offsets reaches the remainder \<open>r\<close> and \<open>i\<close> does not overflow: it stops
  after \<open>m \<le> len(post)\<close> iterations, at the first \<open>m\<close> with
  \<open>r \<le> i + post[0] + \<dots> + post[m - 1]\<close>. The two fields of the cursor may wrap
  around on the way.
\<close>

lemma goto_loop_walk:
  assumes "go_rem v (lcd s) = Inr r" and "offsets s = pre @ post"
    and "r \<le> i + sum_list post"
    and "list_all (\<lambda>d. 0 < d) post"
    and "0 \<le> i" and "i + sum_list post < 2 ^ 63"
    and "fits64 (scaled s)" and "fits64 (unscaled s)"
  shows "\<exists>m\<le>length post.
           goto_loop v (int (length pre)) i s
             = (Inr (int (length pre) + int m),
                s\<lparr>scaled := wrap64 (scaled s + int m),
                  unscaled := wrap64 (unscaled s + sum_list (take m post))\<rparr>)
           \<and> r \<le> i + sum_list (take m post)
           \<and> (0 < m \<longrightarrow> i + sum_list (take (m - 1) post) < r)"
  using assms
proof (induction post arbitrary: pre i s)
  case Nil
  then have "goto_loop v (int (length pre)) i s = (Inr (int (length pre)), s)"
    by (simp add: goto_loop_stop)
  with Nil show ?case by (simp add: wrap64_id)
next
  case (Cons d ds)
  show ?case
  proof (cases "i < r")
    case False
    then have "goto_loop v (int (length pre)) i s = (Inr (int (length pre)), s)"
      using Cons.prems(1) by (simp add: goto_loop_stop)
    with False Cons.prems(7,8) show ?thesis
      by (intro exI [of _ 0]) (simp add: wrap64_id)
  next
    case True
    let ?s' = "s\<lparr>scaled := wrap64 (scaled s + 1), unscaled := wrap64 (unscaled s + d)\<rparr>"
    have d: "0 < d" and ds: "list_all (\<lambda>d. 0 < d) ds"
      using Cons.prems(4) by simp_all
    have rest: "0 \<le> sum_list ds"
      using ds by (rule sum_list_pos)
    have idx: "index (offsets s) (int (length pre)) = Inr d"
      using Cons.prems(2) by (simp add: index_def)
    have w: "wrap64 (i + d) = i + d"
      using Cons.prems(5,6) d rest by (intro wrap64_between) simp_all
    have step: "goto_loop v (int (length pre)) i s
                = goto_loop v (int (length (pre @ [d]))) (i + d) ?s'"
      using goto_loop_step [OF Cons.prems(1) True idx] unfolding w by (simp add: add.commute)
    have "\<exists>m\<le>length ds.
           goto_loop v (int (length (pre @ [d]))) (i + d) ?s'
             = (Inr (int (length (pre @ [d])) + int m),
                ?s'\<lparr>scaled := wrap64 (scaled ?s' + int m),
                    unscaled := wrap64 (unscaled ?s' + sum_list (take m ds))\<rparr>)
           \<and> r \<le> i + d + sum_list (take m ds)
           \<and> (0 < m \<longrightarrow> i + d + sum_list (take (m - 1) ds) < r)"
      using Cons.prems(1,2,3,5,6) d ds by (intro Cons.IH) (simp_all add: fits64_wrap64)
    then obtain m where m: "m \<le> length ds"
      and run: "goto_loop v (int (length (pre @ [d]))) (i + d) ?s'
             = (Inr (int (length (pre @ [d])) + int m),
                ?s'\<lparr>scaled := wrap64 (scaled ?s' + int m),
                    unscaled := wrap64 (unscaled ?s' + sum_list (take m ds))\<rparr>)"
      and stop: "r \<le> i + d + sum_list (take m ds)"
      and before: "0 < m \<longrightarrow> i + d + sum_list (take (m - 1) ds) < r"
      by blast
    have last_step: "i + sum_list (take m (d # ds)) < r"
    proof (cases m)
      case 0
      with True show ?thesis by simp
    next
      case (Suc m')
      with before show ?thesis by (simp add: add.assoc)
    qed
    have "scaled s + 1 + int m = scaled s + int (Suc m)" by simp
    then have sc: "wrap64 (wrap64 (scaled s + 1) + int m) = wrap64 (scaled s + int (Suc m))"
      unfolding wrap64_add_left by (simp only:)
    have un: "wrap64 (wrap64 (unscaled s + d) + sum_list (take m ds))
              = wrap64 (unscaled s + sum_list (take (Suc m) (d # ds)))"
      by (simp add: wrap64_add_left add.assoc)
    show ?thesis
    proof (intro exI [of _ "Suc m"] conjI impI)
      show "Suc m \<le> length (d # ds)" using m by simp
      show "goto_loop v (int (length pre)) i s
            = (Inr (int (length pre) + int (Suc m)),
               s\<lparr>scaled := wrap64 (scaled s + int (Suc m)),
                 unscaled := wrap64 (unscaled s + sum_list (take (Suc m) (d # ds)))\<rparr>)"
        unfolding step run sc [symmetric] un [symmetric] by (simp add: add.assoc)
      show "r \<le> i + sum_list (take (Suc m) (d # ds))"
        using stop by (simp add: add.assoc)
      show "i + sum_list (take (Suc m - 1) (d # ds)) < r"
        using last_step by simp
    qed
  qed
qed

lemma cyclic_nonempty: "cyclic st l offs \<Longrightarrow> offs \<noteq> []"
  by (auto simp: cyclic_def)

lemma index_last: "xs \<noteq> [] \<Longrightarrow> index xs (int (length xs) - 1) = Inr (last xs)"
  by (cases xs rule: rev_cases) (simp_all add: index_def nth_append)

lemma index_pred: "0 < m \<Longrightarrow> m \<le> length xs \<Longrightarrow> index xs (int m - 1) = Inr (xs ! (m - 1))"
  by (simp add: index_def nat_diff_distrib)

text \<open>
  The loop as \<^verbatim>\<open>GoTo\<close> starts it on a cyclic index with
  \<open>start + lcd < 2 ^ 63\<close>, after \<open>wc\<close> whole cycles, for a target \<open>v \<ge> 0\<close>.
\<close>

lemma GoTo_walk:
  assumes cyc: "cyclic (start s) (lcd s) (offsets s)" and v: "0 \<le> v"
    and b: "start s + lcd s < 2 ^ 63"
  obtains m where "m \<le> length (offsets s)"
    and "goto_loop v 0 (start s)
           (s\<lparr>scaled := wrap64 (wc * int (length (offsets s))),
              unscaled := wrap64 (wrap64 (wrap64 (wc * lcd s) + start s) + 1)\<rparr>)
         = (Inr (int m),
            s\<lparr>scaled := wrap64 (wc * int (length (offsets s)) + int m),
              unscaled := wrap64 (wc * lcd s + start s + 1 + sum_list (take m (offsets s)))\<rparr>)"
    and "v mod lcd s \<le> start s + sum_list (take m (offsets s))"
    and "0 < m \<Longrightarrow> start s + sum_list (take (m - 1) (offsets s)) < v mod lcd s"
proof -
  let ?l = "lcd s" and ?st = "start s" and ?offs = "offsets s"
  let ?len = "int (length ?offs)"
  let ?s2 = "s\<lparr>scaled := wrap64 (wc * ?len),
               unscaled := wrap64 (wrap64 (wrap64 (wc * ?l) + ?st) + 1)\<rparr>"
  have l: "0 < ?l" and st: "0 \<le> ?st" and total: "sum_list ?offs = ?l"
    and pos: "list_all (\<lambda>d. 0 < d) ?offs"
    using cyc by (simp_all add: cyclic_def)
  have r: "go_rem v (lcd ?s2) = Inr (v mod ?l)" using v l by (simp add: go_rem_nonneg)
  have "v mod ?l < ?l" using l by simp
  then have bound: "v mod ?l \<le> ?st + sum_list ?offs" using st total by simp
  have "\<exists>m\<le>length ?offs.
           goto_loop v (int (length ([] :: int list))) ?st ?s2
             = (Inr (int (length ([] :: int list)) + int m),
                ?s2\<lparr>scaled := wrap64 (scaled ?s2 + int m),
                    unscaled := wrap64 (unscaled ?s2 + sum_list (take m ?offs))\<rparr>)
           \<and> v mod ?l \<le> ?st + sum_list (take m ?offs)
           \<and> (0 < m \<longrightarrow> ?st + sum_list (take (m - 1) ?offs) < v mod ?l)"
  proof (rule goto_loop_walk)
    show "go_rem v (lcd ?s2) = Inr (v mod ?l)" by (rule r)
    show "offsets ?s2 = [] @ ?offs" by simp
    show "v mod ?l \<le> ?st + sum_list ?offs" by (rule bound)
    show "list_all (\<lambda>d. 0 < d) ?offs" by (rule pos)
    show "0 \<le> ?st" by (rule st)
    show "?st + sum_list ?offs < 2 ^ 63" using total b by simp
    show "fits64 (scaled ?s2)" by (simp add: fits64_wrap64)
    show "fits64 (unscaled ?s2)" by (simp add: fits64_wrap64)
  qed
  then obtain m where m: "m \<le> length ?offs"
    and loop: "goto_loop v 0 ?st ?s2
             = (Inr (int m),
                ?s2\<lparr>scaled := wrap64 (scaled ?s2 + int m),
                    unscaled := wrap64 (unscaled ?s2 + sum_list (take m ?offs))\<rparr>)"
    and stop: "v mod ?l \<le> ?st + sum_list (take m ?offs)"
    and before: "0 < m \<longrightarrow> ?st + sum_list (take (m - 1) ?offs) < v mod ?l"
    by auto
  have "wrap64 (scaled ?s2 + int m) = wrap64 (wc * ?len + int m)"
    by (simp add: wrap64_add_left)
  moreover have "wrap64 (unscaled ?s2 + sum_list (take m ?offs))
                 = wrap64 (wc * ?l + ?st + 1 + sum_list (take m ?offs))"
    by (simp add: wrap64_add_left)
  ultimately have "goto_loop v 0 ?st ?s2
             = (Inr (int m),
                s\<lparr>scaled := wrap64 (wc * ?len + int m),
                  unscaled := wrap64 (wc * ?l + ?st + 1 + sum_list (take m ?offs))\<rparr>)"
    unfolding loop by simp
  then show thesis
    using that [OF m _ stop] before by simp
qed

text \<open>
  So \<^verbatim>\<open>GoTo\<close> returns on such an index, for every target \<open>v \<ge> 0\<close>: the
  division does not panic, the loop ends normally after \<open>m \<le> len(offsets)\<close>
  iterations, and the two slice accesses of the correction are in range.
\<close>

lemma GoTo_returns:
  assumes cyc: "cyclic (start s) (lcd s) (offsets s)" and v: "0 \<le> v"
    and b: "start s + lcd s < 2 ^ 63"
  shows "\<exists>m wc r s'. m \<le> length (offsets s)
          \<and> go_quot v (lcd s) = Inr wc
          \<and> fst (goto_loop v 0 (start s)
                   (s\<lparr>scaled := wrap64 (wc * int (length (offsets s))),
                      unscaled := wrap64 (wrap64 (wrap64 (wc * lcd s) + start s) + 1)\<rparr>))
              = Inr (int m)
          \<and> GoTo v s = (Inr r, s')"
proof -
  let ?l = "lcd s" and ?st = "start s" and ?offs = "offsets s"
  let ?len = "int (length ?offs)"
  define wc where "wc = wrap64 (quot v ?l)"
  have l: "0 < ?l" and st: "0 \<le> ?st" and total: "sum_list ?offs = ?l"
    and pos: "list_all (\<lambda>d. 0 < d) ?offs"
    using cyc by (simp_all add: cyclic_def)
  have ne: "?offs \<noteq> []" using cyc by (rule cyclic_nonempty)
  have q: "go_quot v ?l = Inr wc" using l by (simp add: go_quot_def wc_def)
  have len_l: "?len \<le> ?l" using length_le_sum_list [OF pos] total by simp
  have len_hi: "?len < 2 ^ 63" using len_l b st by simp
  obtain m where m: "m \<le> length ?offs"
    and loop: "goto_loop v 0 ?st
           (s\<lparr>scaled := wrap64 (wc * ?len),
              unscaled := wrap64 (wrap64 (wrap64 (wc * ?l) + ?st) + 1)\<rparr>)
         = (Inr (int m),
            s\<lparr>scaled := wrap64 (wc * ?len + int m),
              unscaled := wrap64 (wc * ?l + ?st + 1 + sum_list (take m ?offs))\<rparr>)"
    using GoTo_walk [OF cyc v b, of wc] by blast
  have "\<exists>r s'. GoTo v s = (Inr r, s')"
  proof (cases "0 < m")
    case True
    have "wrap64 (int m - 1) = int m - 1"
      using True m len_hi by (intro wrap64_between) simp_all
    then show ?thesis
      using True m q loop by (simp add: GoTo_def Let_def index_pred)
  next
    case False
    have "wrap64 (?len - 1) = ?len - 1"
      using ne len_hi by (intro wrap64_between) simp_all
    then show ?thesis
      using False q loop ne by (simp add: GoTo_def Let_def index_last)
  qed
  then show ?thesis
    using m q loop by auto
qed

text \<open>
  The result of \<^verbatim>\<open>GoTo\<close> on such an index, for an \<^verbatim>\<open>int64\<close> target
  \<open>v \<ge> 0\<close>, after \<open>v div lcd\<close> whole cycles and \<open>m\<close> iterations:
  \<open>scaled\<close> is exact, \<open>unscaled\<close> is reduced to 64 bits.
\<close>

lemma GoTo_cyclic:
  assumes cyc: "cyclic (start s) (lcd s) (offsets s)" and v: "0 \<le> v" and vhi: "v < 2 ^ 63"
    and b: "start s + lcd s < 2 ^ 63"
  obtains m where "m \<le> length (offsets s)"
    and "v mod lcd s \<le> start s + sum_list (take m (offsets s))"
    and "0 < m \<Longrightarrow> start s + sum_list (take (m - 1) (offsets s)) < v mod lcd s"
    and "GoTo v s =
          (let sc = v div lcd s * int (length (offsets s)) + int m;
               un = wrap64 (if sc = 0 then 0
                     else if 0 < m
                     then v div lcd s * lcd s + start s + 1 + sum_list (take (m - 1) (offsets s))
                     else v div lcd s * lcd s + start s + 1 - last (offsets s))
           in (Inr \<lparr>Scaled = sc, Unscaled = un\<rparr>, s\<lparr>scaled := sc, unscaled := un\<rparr>))"
proof -
  let ?l = "lcd s" and ?st = "start s" and ?offs = "offsets s"
  let ?len = "int (length ?offs)"
  let ?wc = "v div ?l"
  have l: "0 < ?l" and st: "0 \<le> ?st" and total: "sum_list ?offs = ?l"
    and pos: "list_all (\<lambda>d. 0 < d) ?offs"
    using cyc by (simp_all add: cyclic_def)
  have ne: "?offs \<noteq> []" using cyc by (rule cyclic_nonempty)
  have wc: "0 \<le> ?wc" using v l by (simp add: pos_imp_zdiv_nonneg_iff)
  have split_v: "?wc * ?l + v mod ?l = v" by (simp add: mult.commute)
  have len: "0 < ?len" using ne by simp
  have len_l: "?len \<le> ?l" using length_le_sum_list [OF pos] total by simp
  have len_hi: "?len < 2 ^ 63" using len_l b st by simp
  have sc_lo: "0 \<le> ?wc * ?len" using wc by simp
  have sc_hi: "?wc * ?len \<le> ?wc * ?l" using len_l wc by (rule mult_left_mono)
  have q: "go_quot v ?l = Inr ?wc" using v vhi l by (rule go_quot_nonneg)
  obtain m where m: "m \<le> length ?offs"
    and loop: "goto_loop v 0 ?st
           (s\<lparr>scaled := wrap64 (?wc * ?len),
              unscaled := wrap64 (wrap64 (wrap64 (?wc * ?l) + ?st) + 1)\<rparr>)
         = (Inr (int m),
            s\<lparr>scaled := wrap64 (?wc * ?len + int m),
              unscaled := wrap64 (?wc * ?l + ?st + 1 + sum_list (take m ?offs))\<rparr>)"
    and stop: "v mod ?l \<le> ?st + sum_list (take m ?offs)"
    and before: "0 < m \<Longrightarrow> ?st + sum_list (take (m - 1) ?offs) < v mod ?l"
    using GoTo_walk [OF cyc v b, of ?wc] by blast
  have "int m \<le> v mod ?l"
  proof (cases "0 < m")
    case True
    have "list_all (\<lambda>d. 0 < d) (take (m - 1) ?offs)"
      using pos by (auto simp: list_all_iff dest: in_set_takeD)
    then have "int (length (take (m - 1) ?offs)) \<le> sum_list (take (m - 1) ?offs)"
      by (rule length_le_sum_list)
    moreover have "length (take (m - 1) ?offs) = m - 1" using m by simp
    ultimately have "int (m - 1) \<le> sum_list (take (m - 1) ?offs)" by simp
    with before [OF True] st True show ?thesis by simp
  next
    case False
    then show ?thesis using l by simp
  qed
  then have sc_fit: "?wc * ?len + int m \<le> v"
    using sc_hi split_v by linarith
  have sc_w: "wrap64 (?wc * ?len + int m) = ?wc * ?len + int m"
    using sc_fit sc_lo vhi by (intro wrap64_between) simp_all
  have goto: "GoTo v s =
          (let sc = ?wc * ?len + int m;
               un = wrap64 (if sc = 0 then 0
                     else if 0 < m
                     then ?wc * ?l + ?st + 1 + sum_list (take (m - 1) ?offs)
                     else ?wc * ?l + ?st + 1 - last ?offs)
           in (Inr \<lparr>Scaled = sc, Unscaled = un\<rparr>, s\<lparr>scaled := sc, unscaled := un\<rparr>))"
  proof (cases "0 < m")
    case True
    then obtain m' where m': "m = Suc m'" by (cases m) auto
    have eq: "?wc * ?l + ?st + 1 + sum_list (take m ?offs) - ?offs ! (m - 1)
              = ?wc * ?l + ?st + 1 + sum_list (take (m - 1) ?offs)"
      using m m' sum_list_take_Suc [of m' ?offs] by simp
    have w: "wrap64 (int m - 1) = int m - 1"
      using True m len_hi by (intro wrap64_between) simp_all
    have "wrap64 (wrap64 (?wc * ?l + ?st + 1 + sum_list (take m ?offs)) - ?offs ! (m - 1))
          = wrap64 (?wc * ?l + ?st + 1 + sum_list (take (m - 1) ?offs))"
      unfolding wrap64_diff_left eq ..
    then have un: "wrap64 (wrap64 (?wc * ?l + ?st + 1 + sum_list (take m ?offs))
                           - ?offs ! (m - Suc 0))
          = wrap64 (?wc * ?l + ?st + 1 + sum_list (take (m - Suc 0) ?offs))"
      by simp
    have nz: "?wc * ?len + int m \<noteq> 0"
      using sc_lo True by simp
    show ?thesis
      using True m q loop nz
      by (simp add: GoTo_def Let_def sc_w w un index_pred result_of_def)
  next
    case False
    then have m0: "m = 0" by simp
    have w: "wrap64 (?len - 1) = ?len - 1"
      using len len_hi by (intro wrap64_between) simp_all
    have un: "wrap64 (wrap64 (?wc * ?l + ?st + 1) - last ?offs)
              = wrap64 (?wc * ?l + ?st + 1 - last ?offs)"
      by (rule wrap64_diff_left)
    have sc0: "wrap64 (?wc * ?len) = ?wc * ?len"
      using sc_w m0 by simp
    show ?thesis
    proof (cases "0 < ?wc * ?len")
      case True
      then show ?thesis
        using m0 q loop ne
        by (simp add: GoTo_def Let_def sc0 w un index_last result_of_def wrap64_0)
    next
      case False
      with sc_lo have "?wc * ?len = 0" by simp
      with ne have z: "?wc = 0" by simp
      show ?thesis
        using m0 q loop unfolding z
        by (simp add: GoTo_def Let_def result_of_def wrap64_0)
    qed
  qed
  show thesis
    using that [OF m stop _ goto] before by simp
qed

section \<open>Positions\<close>

lemma position_0: "position st offs 0 = 0"
  by (simp add: position_def)

lemma position_1: "position st offs (Suc 0) = st + 1"
  by (simp add: position_def)

lemma position_step:
  "position st offs (Suc (Suc n)) = position st offs (Suc n) + offs ! (n mod length offs)"
  by (simp add: position_def)

lemma cyclic_sum:
  assumes "offs \<noteq> []"
  shows "(\<Sum>j<n. offs ! (j mod length offs))
         = int (n div length offs) * sum_list offs + sum_list (take (n mod length offs) offs)"
proof (induction n)
  case 0
  show ?case by simp
next
  case (Suc n)
  let ?len = "length offs"
  have len: "0 < ?len" using assms by simp
  then have lt: "n mod ?len < ?len" by simp
  show ?case
  proof (cases "Suc (n mod ?len) = ?len")
    case True
    then have d: "Suc n div ?len = Suc (n div ?len)" and m: "Suc n mod ?len = 0"
      by (simp_all add: div_Suc mod_Suc)
    have "sum_list (take (n mod ?len) offs) + offs ! (n mod ?len) = sum_list offs"
      using sum_list_take_Suc [OF lt] True by simp
    then show ?thesis
      using Suc.IH by (simp add: d m algebra_simps)
  next
    case False
    then have m: "Suc n mod ?len = Suc (n mod ?len)"
      by (simp add: mod_Suc)
    then have d: "Suc n div ?len = n div ?len"
      by (simp add: div_Suc)
    show ?thesis
      using Suc.IH sum_list_take_Suc [OF lt] by (simp add: d m)
  qed
qed

lemma position_at:
  assumes "offs \<noteq> []" and "m \<le> length offs"
  shows "position st offs (Suc (c * length offs + m))
         = st + 1 + int c * sum_list offs + sum_list (take m offs)"
proof (cases "m = length offs")
  case True
  have "(c * length offs + m) div length offs = Suc c" "(c * length offs + m) mod length offs = 0"
    using assms(1) True by simp_all
  then show ?thesis
    using True by (simp add: position_def cyclic_sum [OF assms(1)] algebra_simps)
next
  case False
  with assms(2) have "m < length offs" by simp
  then have "(c * length offs + m) div length offs = c" "(c * length offs + m) mod length offs = m"
    using assms(1) by simp_all
  then show ?thesis
    by (simp add: position_def cyclic_sum [OF assms(1)])
qed

lemma GoTo_position:
  assumes cyc: "cyclic (start s) (lcd s) (offsets s)" and v: "0 \<le> v" and vhi: "v < 2 ^ 63"
    and b: "start s + lcd s < 2 ^ 63"
  obtains k where
    "GoTo v s =
      (Inr \<lparr>Scaled = int k, Unscaled = wrap64 (position (start s) (offsets s) k)\<rparr>,
       s\<lparr>scaled := int k, unscaled := wrap64 (position (start s) (offsets s) k)\<rparr>)"
    and "v < position (start s) (offsets s) (Suc k)"
    and "position (start s) (offsets s) k \<le> v
         \<or> position (start s) (offsets s) k \<le> v + start s + 1 - last (offsets s)"
proof -
  let ?l = "lcd s" and ?st = "start s" and ?offs = "offsets s"
  let ?len = "length ?offs"
  have l: "0 < ?l" and st: "0 \<le> ?st" and total: "sum_list ?offs = ?l"
    using cyc by (simp_all add: cyclic_def)
  have ne: "?offs \<noteq> []" using cyc by (rule cyclic_nonempty)
  obtain m where m: "m \<le> ?len"
    and stop: "v mod ?l \<le> ?st + sum_list (take m ?offs)"
    and before: "0 < m \<Longrightarrow> ?st + sum_list (take (m - 1) ?offs) < v mod ?l"
    and goto: "GoTo v s =
          (let sc = v div ?l * int ?len + int m;
               un = wrap64 (if sc = 0 then 0
                     else if 0 < m
                     then v div ?l * ?l + ?st + 1 + sum_list (take (m - 1) ?offs)
                     else v div ?l * ?l + ?st + 1 - last ?offs)
           in (Inr \<lparr>Scaled = sc, Unscaled = un\<rparr>, s\<lparr>scaled := sc, unscaled := un\<rparr>))"
    using GoTo_cyclic [OF cyc v vhi b] by metis
  define c where "c = nat (v div ?l)"
  have c: "v div ?l = int c"
    using v l by (simp add: c_def pos_imp_zdiv_nonneg_iff)
  define k where "k = c * ?len + m"
  have sc: "int c * int ?len + int m = int k"
    by (simp add: k_def)
  have split_v: "v = int c * ?l + v mod ?l"
    using c by (metis mult.commute mult_div_mod_eq)
  have next_pos: "position ?st ?offs (Suc k) = ?st + 1 + int c * ?l + sum_list (take m ?offs)"
    unfolding k_def using position_at [OF ne m] total by simp
  have un: "(if int k = 0 then 0
             else if 0 < m then int c * ?l + ?st + 1 + sum_list (take (m - 1) ?offs)
             else int c * ?l + ?st + 1 - last ?offs) = position ?st ?offs k"
  proof (cases "k = 0")
    case True
    then show ?thesis by (simp add: position_0)
  next
    case k: False
    show ?thesis
    proof (cases "0 < m")
      case True
      then have "k = Suc (c * ?len + (m - 1))" by (simp add: k_def)
      moreover have "m - 1 \<le> ?len" using m by simp
      ultimately have "position ?st ?offs k
                       = ?st + 1 + int c * ?l + sum_list (take (m - 1) ?offs)"
        using position_at [OF ne, of "m - 1" ?st c] total by simp
      with True k show ?thesis by simp
    next
      case False
      then have m0: "m = 0" by simp
      with k have "0 < c" by (simp add: k_def)
      then obtain c' where c': "c = Suc c'" by (cases c) auto
      have "k = Suc (c' * ?len + (?len - 1))"
        using ne by (simp add: k_def m0 c')
      then have "position ?st ?offs k
                 = ?st + 1 + int c' * ?l + sum_list (take (?len - 1) ?offs)"
        using position_at [OF ne, of "?len - 1" ?st c'] total by simp
      moreover have "sum_list (take (?len - 1) ?offs) = ?l - last ?offs"
        using ne total by (cases ?offs rule: rev_cases) auto
      ultimately show ?thesis
        using m0 k by (simp add: c' algebra_simps)
    qed
  qed
  show thesis
  proof (rule that [of k])
    show "GoTo v s =
      (Inr \<lparr>Scaled = int k, Unscaled = wrap64 (position ?st ?offs k)\<rparr>,
       s\<lparr>scaled := int k, unscaled := wrap64 (position ?st ?offs k)\<rparr>)"
      using goto unfolding c sc Let_def un .
    show "v < position ?st ?offs (Suc k)"
      using next_pos stop split_v by linarith
    show "position ?st ?offs k \<le> v \<or> position ?st ?offs k \<le> v + ?st + 1 - last ?offs"
    proof (cases "k = 0")
      case True
      with v show ?thesis by (simp add: position_0)
    next
      case k: False
      show ?thesis
      proof (cases "0 < m")
        case True
        with un k before split_v show ?thesis by simp
      next
        case False
        have "0 \<le> v mod ?l" using l by simp
        with False un k split_v show ?thesis by simp
      qed
    qed
  qed
qed

lemma position_mono_Suc:
  assumes "cyclic st l offs"
  shows "position st offs k \<le> position st offs (Suc k)"
proof (cases k)
  case 0
  with assms show ?thesis
    by (simp add: position_0 position_1 cyclic_def)
next
  case (Suc n)
  have ne: "offs \<noteq> []" using assms by (rule cyclic_nonempty)
  then have "n mod length offs < length offs" by simp
  then have "0 < offs ! (n mod length offs)"
    using assms by (simp add: cyclic_def list_all_length)
  with Suc show ?thesis by (simp add: position_step)
qed


lemma position_less_Suc:
  assumes "cyclic st l offs"
  shows "position st offs k < position st offs (Suc k)"
proof (cases k)
  case 0
  with assms show ?thesis
    by (simp add: position_0 position_1 cyclic_def)
next
  case (Suc n)
  have ne: "offs \<noteq> []" using assms by (rule cyclic_nonempty)
  then have "n mod length offs < length offs" by simp
  then have "0 < offs ! (n mod length offs)"
    using assms by (simp add: cyclic_def list_all_length)
  with Suc show ?thesis by (simp add: position_step)
qed

lemma position_less:
  "cyclic st l offs \<Longrightarrow> j < k \<Longrightarrow> position st offs j < position st offs k"
  by (rule lift_Suc_mono_less [of "position st offs"]) (simp_all add: position_less_Suc)

lemma position_eq_iff:
  assumes "cyclic st l offs"
  shows "position st offs j = position st offs k \<longleftrightarrow> j = k"
  using position_less [OF assms, of j k] position_less [OF assms, of k j]
  by (cases j k rule: linorder_cases) auto

lemma position_ge:
  assumes "cyclic st l offs"
  shows "int k \<le> position st offs k"
proof (induction k)
  case 0
  show ?case by (simp add: position_0)
next
  case (Suc k)
  show ?case
  proof (cases k)
    case 0
    with assms show ?thesis by (simp add: position_1 cyclic_def)
  next
    case (Suc n)
    have ne: "offs \<noteq> []" using assms by (rule cyclic_nonempty)
    then have "n mod length offs < length offs" by simp
    then have "0 < offs ! (n mod length offs)"
      using assms by (simp add: cyclic_def list_all_length)
    with Suc Suc.IH show ?thesis by (simp add: position_step)
  qed
qed


lemma Next_on_position:
  assumes cyc: "cyclic (start s) (lcd s) (offsets s)"
    and hi: "position (start s) (offsets s) (Suc j) < 2 ^ 63"
  shows "Next (s\<lparr>scaled := int j, unscaled := position (start s) (offsets s) j\<rparr>)
         = (Inr \<lparr>Scaled = int (Suc j), Unscaled = position (start s) (offsets s) (Suc j)\<rparr>,
            s\<lparr>scaled := int (Suc j), unscaled := position (start s) (offsets s) (Suc j)\<rparr>)"
proof -
  let ?p = "position (start s) (offsets s)"
  have ne: "offsets s \<noteq> []" using cyc by (rule cyclic_nonempty)
  have up: "int (Suc j) \<le> ?p (Suc j)" using cyc by (rule position_ge)
  show ?thesis
  proof (cases j)
    case 0
    have "0 \<le> start s + 1" "start s + 1 < 2 ^ 63"
      using cyc hi 0 by (simp_all add: cyclic_def position_1)
    then have "wrap64 (start s + 1) = start s + 1"
      by (rule wrap64_between)
    with 0 show ?thesis
      by (simp add: Next_zero position_0 position_1)
  next
    case (Suc n)
    let ?s = "s\<lparr>scaled := int j, unscaled := ?p j\<rparr>"
    have a: "1 \<le> scaled ?s" "scaled ?s < 2 ^ 63" "offsets ?s \<noteq> []" "nat (scaled ?s - 1) = n"
      using Suc ne up hi by simp_all
    have "wrap64 (int j + 1) = int j + 1"
      using up hi by (intro wrap64_between) simp_all
    moreover have "wrap64 (?p (Suc j)) = ?p (Suc j)"
      using up hi by (intro wrap64_between) simp_all
    then have "wrap64 (?p j + offsets s ! (n mod length (offsets s))) = ?p (Suc j)"
      using Suc by (simp add: position_step)
    ultimately show ?thesis
      using Suc Next_pos [OF a(1,2,3)] a(4) by (simp add: add.commute del: of_nat_Suc)
  qed
qed

lemma Prev_on_position:
  assumes cyc: "cyclic (start s) (lcd s) (offsets s)"
    and hi: "position (start s) (offsets s) (Suc j) < 2 ^ 63"
  shows "Prev (s\<lparr>scaled := int (Suc j), unscaled := position (start s) (offsets s) (Suc j)\<rparr>)
         = (Inr \<lparr>Scaled = int j, Unscaled = position (start s) (offsets s) j\<rparr>,
            s\<lparr>scaled := int j, unscaled := position (start s) (offsets s) j\<rparr>)"
proof -
  let ?p = "position (start s) (offsets s)"
  let ?s = "s\<lparr>scaled := int j, unscaled := ?p j\<rparr>"
  have "int j \<le> ?p j" using cyc by (rule position_ge)
  moreover have "?p j \<le> ?p (Suc j)" using cyc by (rule position_mono_Suc)
  ultimately have "fits64 (scaled ?s)" "fits64 (unscaled ?s)"
    using hi by (simp_all add: fits64_def)
  then show ?thesis
    using Next_then_Prev [OF Next_on_position [OF cyc hi]]
    by (simp add: result_of_def)
qed

lemma on_position_eq:
  assumes "0 \<le> scaled s" and "unscaled s = position (start s) (offsets s) (nat (scaled s))"
  shows "s = s\<lparr>scaled := int (nat (scaled s)),
               unscaled := position (start s) (offsets s) (nat (scaled s))\<rparr>"
  using assms by simp

lemma do_call_on_position:
  assumes cyc: "cyclic (start s) (lcd s) (offsets s)"
    and sc: "0 \<le> scaled s"
    and un: "unscaled s = position (start s) (offsets s) (nat (scaled s))"
    and lim: "unscaled s < 2 ^ 63"
    and adm: "admissible c s"
  shows "0 \<le> scaled (snd (do_call c s))
       \<and> unscaled (snd (do_call c s))
           = position (start s) (offsets s) (nat (scaled (snd (do_call c s))))
       \<and> unscaled (snd (do_call c s)) < 2 ^ 63"
proof -
  let ?p = "position (start s) (offsets s)"
  define j where "j = nat (scaled s)"
  have s: "s = s\<lparr>scaled := int j, unscaled := ?p j\<rparr>"
    unfolding j_def using sc un by (rule on_position_eq)
  have pj: "?p j = unscaled s" using un by (simp add: j_def)
  have "int j \<le> ?p j" using cyc by (rule position_ge)
  then have "cursor64 s"
    using sc lim pj by (simp add: cursor64_def fits64_def j_def)
  then have "cursor64 (snd (do_call c s))"
    by (rule do_call_cursor64)
  then have below: "unscaled (snd (do_call c s)) < 2 ^ 63"
    by (simp add: cursor64_def fits64_def)
  have "0 \<le> scaled (snd (do_call c s))
       \<and> unscaled (snd (do_call c s)) = ?p (nat (scaled (snd (do_call c s))))"
  proof (cases c)
    case Advance
    have hi: "?p (Suc j) < 2 ^ 63"
    proof (cases j)
      case 0
      then have "scaled s = 0" using sc by (simp add: j_def)
      with adm Advance 0 pj show ?thesis
        by (simp add: position_0 position_1)
    next
      case (Suc n)
      then have "scaled s \<noteq> 0" "nat (scaled s - 1) = n"
        by (simp_all add: j_def)
      with adm Advance Suc pj show ?thesis
        by (simp add: position_step)
    qed
    have "Next s = (Inr \<lparr>Scaled = int (Suc j), Unscaled = ?p (Suc j)\<rparr>,
            s\<lparr>scaled := int (Suc j), unscaled := ?p (Suc j)\<rparr>)"
      using Next_on_position [OF cyc hi] s by simp
    with Advance show ?thesis by (simp add: do_call_def del: of_nat_Suc)
  next
    case Retreat
    with adm have "1 \<le> scaled s" by simp
    then obtain j' where j': "j = Suc j'" by (cases j) (auto simp: j_def)
    have hi: "?p (Suc j') < 2 ^ 63" using pj lim by (simp add: j')
    have "Prev s = (Inr \<lparr>Scaled = int j', Unscaled = ?p j'\<rparr>,
            s\<lparr>scaled := int j', unscaled := ?p j'\<rparr>)"
      using Prev_on_position [OF cyc hi] s unfolding j' by simp
    with Retreat show ?thesis by (simp add: do_call_def)
  next
    case (SeekTo v)
    with adm have v: "0 \<le> v" and vhi: "v < 2 ^ 63" and b: "start s + lcd s < 2 ^ 63"
      and land: "v + start s + 1 - last (offsets s) < 2 ^ 63"
      by simp_all
    from GoTo_position [OF cyc v vhi b] obtain k where
      g: "GoTo v s = (Inr \<lparr>Scaled = int k, Unscaled = wrap64 (?p k)\<rparr>,
                   s\<lparr>scaled := int k, unscaled := wrap64 (?p k)\<rparr>)"
      and "?p k \<le> v \<or> ?p k \<le> v + start s + 1 - last (offsets s)"
      by blast
    then have "?p k < 2 ^ 63" using vhi land by auto
    moreover have "int k \<le> ?p k" using cyc by (rule position_ge)
    ultimately have "wrap64 (?p k) = ?p k"
      by (intro wrap64_between) simp_all
    with g SeekTo show ?thesis by (simp add: do_call_def)
  qed
  with below show ?thesis by simp
qed

text \<open>
  On a position, a call moves both fields of the cursor or neither: positions
  grow strictly with \<open>scaled\<close>.
\<close>

lemma do_call_moves_both:
  assumes cyc: "cyclic (start s) (lcd s) (offsets s)"
    and sc: "0 \<le> scaled s"
    and un: "unscaled s = position (start s) (offsets s) (nat (scaled s))"
    and lim: "unscaled s < 2 ^ 63"
    and adm: "admissible c s"
  shows "scaled (snd (do_call c s)) = scaled s \<longleftrightarrow> unscaled (snd (do_call c s)) = unscaled s"
proof -
  let ?s' = "snd (do_call c s)"
  have sc': "0 \<le> scaled ?s'"
    and un': "unscaled ?s' = position (start s) (offsets s) (nat (scaled ?s'))"
    using do_call_on_position [OF assms] by simp_all
  have "unscaled ?s' = unscaled s \<longleftrightarrow> nat (scaled ?s') = nat (scaled s)"
    unfolding un un' using cyc by (rule position_eq_iff)
  also have "\<dots> \<longleftrightarrow> scaled ?s' = scaled s"
    using sc sc' by (simp add: nat_eq_iff)
  finally show ?thesis by simp
qed

lemma run_on_position:
  assumes "cyclic (start s) (lcd s) (offsets s)"
    and "0 \<le> scaled s"
    and "unscaled s = position (start s) (offsets s) (nat (scaled s))"
    and "unscaled s < 2 ^ 63"
    and "admitted cs s"
  shows "0 \<le> scaled (run cs s)
       \<and> unscaled (run cs s) = position (start s) (offsets s) (nat (scaled (run cs s)))"
  using assms
proof (induction cs arbitrary: s)
  case Nil
  then show ?case by simp
next
  case (Cons c cs)
  let ?s' = "snd (do_call c s)"
  have same: "start ?s' = start s" "lcd ?s' = lcd s" "offsets ?s' = offsets s"
    using do_call_same_params [of s c] by (simp_all add: same_params_def)
  have adm: "admissible c s" "admitted cs ?s'"
    using Cons.prems(5) by simp_all
  have step: "0 \<le> scaled ?s'"
    "unscaled ?s' = position (start s) (offsets s) (nat (scaled ?s'))"
    "unscaled ?s' < 2 ^ 63"
    using do_call_on_position [OF Cons.prems(1,2,3,4) adm(1)] by simp_all
  have "0 \<le> scaled (run cs ?s')
       \<and> unscaled (run cs ?s') = position (start ?s') (offsets ?s') (nat (scaled (run cs ?s')))"
    using Cons.prems(1) step adm(2) by (intro Cons.IH) (simp_all add: same)
  then show ?case by (simp add: same)
qed


section \<open>GoTo\<close>

text \<open>
  C10, as the specification states it, fails on the code: the sums of
  \<^verbatim>\<open>GoTo\<close> can leave the \<^verbatim>\<open>int64\<close> range. With \<open>start = 2 ^ 62\<close>,
  \<open>lcd = 2 ^ 63 - 1\<close>, the single offset \<open>2 ^ 63 - 1\<close> and the target
  \<open>2 ^ 62 + 1\<close>, all preconditions hold and all values are \<^verbatim>\<open>int64\<close>. The
  first iteration of the loop adds the offset to \<open>i\<close>, which wraps around to a
  negative number; so the loop goes on and its second iteration reads
  \<^verbatim>\<open>s.offsets[1]\<close>, out of range.
\<close>

theorem GoTo_stays_in_bounds_counterexample:
  "0 \<le> start (NewSegmentedIndex (2 ^ 62) (2 ^ 63 - 1) [2 ^ 63 - 1])
   \<and> 0 < lcd (NewSegmentedIndex (2 ^ 62) (2 ^ 63 - 1) [2 ^ 63 - 1])
   \<and> list_all (\<lambda>d. 0 < d) (offsets (NewSegmentedIndex (2 ^ 62) (2 ^ 63 - 1) [2 ^ 63 - 1]))
   \<and> sum_list (offsets (NewSegmentedIndex (2 ^ 62) (2 ^ 63 - 1) [2 ^ 63 - 1]))
       = lcd (NewSegmentedIndex (2 ^ 62) (2 ^ 63 - 1) [2 ^ 63 - 1])
   \<and> (0 :: int) \<le> 2 ^ 62 + 1
   \<and> fits64 (2 ^ 62) \<and> fits64 (2 ^ 63 - 1) \<and> fits64 (2 ^ 62 + 1)
   \<and> GoTo (2 ^ 62 + 1) (NewSegmentedIndex (2 ^ 62) (2 ^ 63 - 1) [2 ^ 63 - 1])
       = (Inl IndexOutOfRange,
          \<lparr>start = 2 ^ 62, lcd = 2 ^ 63 - 1, offsets = [2 ^ 63 - 1],
           scaled = 2, unscaled = - (2 ^ 62)\<rparr>)"
proof -
  have "GoTo (2 ^ 62 + 1) (NewSegmentedIndex (2 ^ 62) (2 ^ 63 - 1) [2 ^ 63 - 1])
       = (Inl IndexOutOfRange,
          \<lparr>start = 2 ^ 62, lcd = 2 ^ 63 - 1, offsets = [2 ^ 63 - 1],
           scaled = 2, unscaled = - (2 ^ 62)\<rparr>)"
    by code_simp
  then show ?thesis
    by (simp add: NewSegmentedIndex_def fits64_def)
qed

text \<open>
  C10, amended. On an index with \<open>start \<ge> 0\<close>, \<open>lcd > 0\<close>, every offset
  positive, the offsets summing to \<open>lcd\<close> and \<open>start + lcd < 2 ^ 63\<close>, and for
  every target \<open>v \<ge> 0\<close>: the division of \<^verbatim>\<open>GoTo\<close> does not panic; its
  loop, started as \<^verbatim>\<open>GoTo\<close> starts it, ends normally after
  \<open>m \<le> len(offsets)\<close> iterations; and \<^verbatim>\<open>GoTo\<close> returns a result, so none of
  its slice accesses is out of range.
\<close>

theorem GoTo_stays_in_bounds:
  assumes "0 \<le> start s" and "0 < lcd s" and "list_all (\<lambda>d. 0 < d) (offsets s)"
    and "sum_list (offsets s) = lcd s" and "0 \<le> v"
    and "start s + lcd s < 2 ^ 63"
  shows "\<exists>m wc r s'. m \<le> length (offsets s)
          \<and> go_quot v (lcd s) = Inr wc
          \<and> fst (goto_loop v 0 (start s)
                   (s\<lparr>scaled := wrap64 (wc * int (length (offsets s))),
                      unscaled := wrap64 (wrap64 (wrap64 (wc * lcd s) + start s) + 1)\<rparr>))
              = Inr (int m)
          \<and> GoTo v s = (Inr r, s')"
proof -
  have "cyclic (start s) (lcd s) (offsets s)"
    using assms(1,2,3,4) by (simp add: cyclic_def)
  then show ?thesis
    using assms(5,6) by (rule GoTo_returns)
qed

theorem GoTo_stays_in_bounds_witness:
  "list_all (\<lambda>d. 0 < d) [2, 1 :: int] \<and> sum_list [2, 1 :: int] = 3
   \<and> (0 :: int) \<le> 2 ^ 63 - 1 \<and> (0 :: int) + 3 < 2 ^ 63
   \<and> (\<exists>m wc r s'. m \<le> length [2, 1 :: int]
          \<and> go_quot (2 ^ 63 - 1) 3 = Inr wc
          \<and> fst (goto_loop (2 ^ 63 - 1) 0 0
                   \<lparr>start = 0, lcd = 3, offsets = [2, 1],
                    scaled = wrap64 (wc * 2),
                    unscaled = wrap64 (wrap64 (wrap64 (wc * 3) + 0) + 1)\<rparr>) = Inr (int m)
          \<and> GoTo (2 ^ 63 - 1) (NewSegmentedIndex 0 3 [2, 1]) = (Inr r, s'))"
proof -
  let ?s = "NewSegmentedIndex 0 3 [2, 1]"
  have a: "0 \<le> start ?s" "0 < lcd ?s" "list_all (\<lambda>d. 0 < d) (offsets ?s)"
    "sum_list (offsets ?s) = lcd ?s" "start ?s + lcd ?s < 2 ^ 63"
    by (simp_all add: NewSegmentedIndex_def)
  have v: "(0 :: int) \<le> 2 ^ 63 - 1" by simp
  obtain m wc r s' where "m \<le> length (offsets ?s)"
    "go_quot (2 ^ 63 - 1) (lcd ?s) = Inr wc"
    "fst (goto_loop (2 ^ 63 - 1) 0 (start ?s)
            (?s\<lparr>scaled := wrap64 (wc * int (length (offsets ?s))),
                 unscaled := wrap64 (wrap64 (wrap64 (wc * lcd ?s) + start ?s) + 1)\<rparr>))
       = Inr (int m)"
    "GoTo (2 ^ 63 - 1) ?s = (Inr r, s')"
    using GoTo_stays_in_bounds [OF a(1,2,3,4) v a(5)] by blast
  then have "m \<le> length [2, 1 :: int]
          \<and> go_quot (2 ^ 63 - 1) 3 = Inr wc
          \<and> fst (goto_loop (2 ^ 63 - 1) 0 0
                   \<lparr>start = 0, lcd = 3, offsets = [2, 1],
                    scaled = wrap64 (wc * 2),
                    unscaled = wrap64 (wrap64 (wrap64 (wc * 3) + 0) + 1)\<rparr>) = Inr (int m)
          \<and> GoTo (2 ^ 63 - 1) ?s = (Inr r, s')"
    by (simp add: NewSegmentedIndex_def)
  then have "\<exists>m wc r s'. m \<le> length [2, 1 :: int]
          \<and> go_quot (2 ^ 63 - 1) 3 = Inr wc
          \<and> fst (goto_loop (2 ^ 63 - 1) 0 0
                   \<lparr>start = 0, lcd = 3, offsets = [2, 1],
                    scaled = wrap64 (wc * 2),
                    unscaled = wrap64 (wrap64 (wrap64 (wc * 3) + 0) + 1)\<rparr>) = Inr (int m)
          \<and> GoTo (2 ^ 63 - 1) ?s = (Inr r, s')"
    by blast
  then show ?thesis by simp
qed

text \<open>
  C2, as the specification states it, fails on the code.
  \<^item> A negative target makes \<^verbatim>\<open>GoTo\<close> leave a negative \<open>scaled\<close>, from which
    \<^verbatim>\<open>Next\<close> reaches \<open>scaled = 0\<close> with \<open>unscaled = 1\<close> (first index below:
    the first third of a cycle of three).
  \<^item> When the offsets do not sum to \<open>lcd\<close>, \<^verbatim>\<open>GoTo\<close> leaves the positions
    altogether (second index: \<^verbatim>\<open>GoTo 3\<close> gives \<open>(1, 3)\<close>, the first element
    being at \<open>1\<close>).
  \<^item> A position beyond the \<^verbatim>\<open>int64\<close> range cannot be held: after \<^verbatim>\<open>Next\<close>
    (third index: \<open>start = 2 ^ 63 - 2\<close>, one offset \<open>2 ^ 63 - 1\<close>; the second
    \<^verbatim>\<open>Next\<close> leaves \<open>unscaled = - 2\<close>), and after \<^verbatim>\<open>GoTo\<close> (fourth
    index: \<open>start = 5\<close>, \<open>lcd = 3\<close>, offsets \<open>[1, 2]\<close>;
    \<^verbatim>\<open>GoTo (2 ^ 63 - 1)\<close> lands on an element at position \<open>2 ^ 63 + 2\<close> and
    leaves \<open>unscaled = 2 - 2 ^ 63\<close>).
  \<^item> When the loop variable of \<^verbatim>\<open>GoTo\<close> overflows, \<^verbatim>\<open>GoTo\<close> panics half-way
    (fifth index: \<open>start = 2 ^ 62\<close>, one offset \<open>2 ^ 63 - 1\<close>;
    \<^verbatim>\<open>GoTo (2 ^ 62 + 1)\<close> leaves \<open>(2, - (2 ^ 62))\<close>).
\<close>

theorem cursor_on_position_counterexample:
  "permitted [SeekTo (- 3), Advance] (NewSegmentedIndex 0 3 [3])
   \<and> \<not> exact_position (run [SeekTo (- 3), Advance] (NewSegmentedIndex 0 3 [3]))
   \<and> permitted [SeekTo 3] (NewSegmentedIndex 0 3 [1])
   \<and> \<not> exact_position (run [SeekTo 3] (NewSegmentedIndex 0 3 [1]))
   \<and> permitted [Advance, Advance] (NewSegmentedIndex (2 ^ 63 - 2) (2 ^ 63 - 1) [2 ^ 63 - 1])
   \<and> fits64 (2 ^ 63 - 2) \<and> fits64 (2 ^ 63 - 1)
   \<and> \<not> exact_position
         (run [Advance, Advance] (NewSegmentedIndex (2 ^ 63 - 2) (2 ^ 63 - 1) [2 ^ 63 - 1]))
   \<and> permitted [SeekTo (2 ^ 63 - 1)] (NewSegmentedIndex 5 3 [1, 2])
   \<and> cyclic 5 3 [1, 2]
   \<and> \<not> exact_position (run [SeekTo (2 ^ 63 - 1)] (NewSegmentedIndex 5 3 [1, 2]))
   \<and> permitted [SeekTo (2 ^ 62 + 1)] (NewSegmentedIndex (2 ^ 62) (2 ^ 63 - 1) [2 ^ 63 - 1])
   \<and> cyclic (2 ^ 62) (2 ^ 63 - 1) [2 ^ 63 - 1]
   \<and> \<not> exact_position
         (run [SeekTo (2 ^ 62 + 1)] (NewSegmentedIndex (2 ^ 62) (2 ^ 63 - 1) [2 ^ 63 - 1]))"
proof -
  have a: "run [SeekTo (- 3), Advance] (NewSegmentedIndex 0 3 [3])
           = \<lparr>start = 0, lcd = 3, offsets = [3], scaled = 0, unscaled = 1\<rparr>"
    by code_simp
  have b: "run [SeekTo 3] (NewSegmentedIndex 0 3 [1])
           = \<lparr>start = 0, lcd = 3, offsets = [1], scaled = 1, unscaled = 3\<rparr>"
    by code_simp
  have c: "run [Advance, Advance] (NewSegmentedIndex (2 ^ 63 - 2) (2 ^ 63 - 1) [2 ^ 63 - 1])
           = \<lparr>start = 2 ^ 63 - 2, lcd = 2 ^ 63 - 1, offsets = [2 ^ 63 - 1],
              scaled = 2, unscaled = - 2\<rparr>"
    by code_simp
  have d: "run [SeekTo (2 ^ 63 - 1)] (NewSegmentedIndex 5 3 [1, 2])
           = \<lparr>start = 5, lcd = 3, offsets = [1, 2],
              scaled = 6148914691236517204, unscaled = 2 - 2 ^ 63\<rparr>"
    by code_simp
  have e: "run [SeekTo (2 ^ 62 + 1)] (NewSegmentedIndex (2 ^ 62) (2 ^ 63 - 1) [2 ^ 63 - 1])
           = \<lparr>start = 2 ^ 62, lcd = 2 ^ 63 - 1, offsets = [2 ^ 63 - 1],
              scaled = 2, unscaled = - (2 ^ 62)\<rparr>"
    by code_simp
  have cyc_d: "cyclic 5 3 [1, 2]" and cyc_e: "cyclic (2 ^ 62) (2 ^ 63 - 1) [2 ^ 63 - 1]"
    by (simp_all add: cyclic_def)
  have "position (2 ^ 63 - 2) [2 ^ 63 - 1] (Suc (Suc 0)) \<noteq> - 2"
    by (simp add: position_step position_1)
  then have nc: "\<not> exact_position \<lparr>start = 2 ^ 63 - 2, lcd = 2 ^ 63 - 1,
              offsets = [2 ^ 63 - 1], scaled = 2, unscaled = - 2\<rparr>"
    by (simp add: exact_position_def numeral_2_eq_2)
  have "0 \<le> position 5 [1, 2] (nat 6148914691236517204)"
    using position_ge [OF cyc_d, of "nat 6148914691236517204"] by simp
  then have nd: "\<not> exact_position \<lparr>start = 5, lcd = 3, offsets = [1, 2],
              scaled = 6148914691236517204, unscaled = 2 - 2 ^ 63\<rparr>"
    by (simp add: exact_position_def)
  have "0 \<le> position (2 ^ 62) [2 ^ 63 - 1] (nat 2)"
    using position_ge [OF cyc_e, of "nat 2"] by simp
  then have ne: "\<not> exact_position \<lparr>start = 2 ^ 62, lcd = 2 ^ 63 - 1,
              offsets = [2 ^ 63 - 1], scaled = 2, unscaled = - (2 ^ 62)\<rparr>"
    by (simp add: exact_position_def)
  have p: "permitted [SeekTo (- 3), Advance] (NewSegmentedIndex 0 3 [3])"
    "permitted [SeekTo 3] (NewSegmentedIndex 0 3 [1])"
    "permitted [Advance, Advance] (NewSegmentedIndex (2 ^ 63 - 2) (2 ^ 63 - 1) [2 ^ 63 - 1])"
    "permitted [SeekTo (2 ^ 63 - 1)] (NewSegmentedIndex 5 3 [1, 2])"
    "permitted [SeekTo (2 ^ 62 + 1)] (NewSegmentedIndex (2 ^ 62) (2 ^ 63 - 1) [2 ^ 63 - 1])"
    by simp_all
  have f: "fits64 (2 ^ 63 - 2)" "fits64 (2 ^ 63 - 1)"
    by (simp_all add: fits64_def)
  have na: "\<not> exact_position \<lparr>start = 0, lcd = 3, offsets = [3], scaled = 0, unscaled = 1\<rparr>"
    and nb: "\<not> exact_position \<lparr>start = 0, lcd = 3, offsets = [1], scaled = 1, unscaled = 3\<rparr>"
    by (simp_all add: exact_position_def position_0 position_1)
  show ?thesis
    unfolding a b c d e
    by (intro conjI) (rule p na nb nc nd ne f cyc_d cyc_e)+
qed

text \<open>
  C2, amended. On an index with \<open>start \<ge> 0\<close>, \<open>lcd > 0\<close>, every offset positive
  and the offsets summing to \<open>lcd\<close>, take the calls that stay inside the
  \<^verbatim>\<open>int64\<close> range: \<^verbatim>\<open>Next\<close> when the sum it computes is below \<open>2 ^ 63\<close>,
  \<^verbatim>\<open>Prev\<close> with \<open>scaled \<ge> 1\<close>, and \<^verbatim>\<open>GoTo\<close> with an \<^verbatim>\<open>int64\<close> target
  \<open>v \<ge> 0\<close> when \<open>start + lcd < 2 ^ 63\<close> and
  \<open>v + start + 1 - last offsets < 2 ^ 63\<close>. In every state reached from the fresh
  index by such calls: \<open>scaled \<ge> 0\<close>, and \<open>unscaled\<close> is the position of the
  \<open>scaled\<close>-th element, that is \<open>0\<close> for \<open>scaled = 0\<close> and otherwise
  \<open>start + 1\<close> plus the offsets \<open>offsets[j mod len(offsets)]\<close> for
  \<open>j = 0, \<dots>, scaled - 2\<close>. And the two fields are updated together: any such call
  made in that state changes \<open>scaled\<close> if and only if it changes \<open>unscaled\<close>.
\<close>

theorem cursor_on_position:
  assumes "cyclic st l offs"
    and "admitted cs (NewSegmentedIndex st l offs)"
  shows "0 \<le> scaled (run cs (NewSegmentedIndex st l offs))
       \<and> exact_position (run cs (NewSegmentedIndex st l offs))
       \<and> (\<forall>c. admissible c (run cs (NewSegmentedIndex st l offs)) \<longrightarrow>
             (scaled (snd (do_call c (run cs (NewSegmentedIndex st l offs))))
                = scaled (run cs (NewSegmentedIndex st l offs))
              \<longleftrightarrow> unscaled (snd (do_call c (run cs (NewSegmentedIndex st l offs))))
                = unscaled (run cs (NewSegmentedIndex st l offs))))"
proof -
  let ?s = "NewSegmentedIndex st l offs"
  have par: "start (run cs ?s) = start ?s" "lcd (run cs ?s) = lcd ?s"
    "offsets (run cs ?s) = offsets ?s"
    using run_same_params [of ?s cs] by (simp_all add: same_params_def)
  have on: "0 \<le> scaled (run cs ?s)
       \<and> unscaled (run cs ?s) = position (start ?s) (offsets ?s) (nat (scaled (run cs ?s)))"
    using assms by (intro run_on_position) (simp_all add: NewSegmentedIndex_def position_0)
  have "cursor64 ?s"
    by (simp add: cursor64_def NewSegmentedIndex_def fits64_0)
  then have "cursor64 (run cs ?s)"
    by (rule run_cursor64)
  then have lim: "unscaled (run cs ?s) < 2 ^ 63"
    by (simp add: cursor64_def fits64_def)
  have cyc: "cyclic (start (run cs ?s)) (lcd (run cs ?s)) (offsets (run cs ?s))"
    unfolding par using assms(1) by (simp add: NewSegmentedIndex_def)
  have both: "scaled (snd (do_call c (run cs ?s))) = scaled (run cs ?s)
              \<longleftrightarrow> unscaled (snd (do_call c (run cs ?s))) = unscaled (run cs ?s)"
    if "admissible c (run cs ?s)" for c
    using cyc _ _ lim that
  proof (rule do_call_moves_both)
    show "0 \<le> scaled (run cs ?s)" using on by simp
    show "unscaled (run cs ?s)
          = position (start (run cs ?s)) (offsets (run cs ?s)) (nat (scaled (run cs ?s)))"
      unfolding par using on by simp
  qed
  have "exact_position (run cs ?s)"
    using on par by (simp add: exact_position_def)
  with on both show ?thesis by blast
qed

theorem cursor_on_position_witness:
  "cyclic 0 3 [2, 1]
   \<and> admitted [Advance, Advance, SeekTo (2 ^ 63 - 1), Retreat] (NewSegmentedIndex 0 3 [2, 1])
   \<and> run [Advance, Advance, SeekTo (2 ^ 63 - 1), Retreat] (NewSegmentedIndex 0 3 [2, 1])
       = \<lparr>start = 0, lcd = 3, offsets = [2, 1],
          scaled = 6148914691236517204, unscaled = 2 ^ 63 - 2\<rparr>
   \<and> exact_position \<lparr>start = 0, lcd = 3, offsets = [2, 1],
                       scaled = 6148914691236517204, unscaled = 2 ^ 63 - 2\<rparr>
   \<and> admissible (SeekTo 5) \<lparr>start = 0, lcd = 3, offsets = [2, 1],
                       scaled = 6148914691236517204, unscaled = 2 ^ 63 - 2\<rparr>
   \<and> (scaled (snd (do_call (SeekTo 5) \<lparr>start = 0, lcd = 3, offsets = [2, 1],
                       scaled = 6148914691236517204, unscaled = 2 ^ 63 - 2\<rparr>))
         = 6148914691236517204
       \<longleftrightarrow> unscaled (snd (do_call (SeekTo 5) \<lparr>start = 0, lcd = 3, offsets = [2, 1],
                       scaled = 6148914691236517204, unscaled = 2 ^ 63 - 2\<rparr>))
         = 2 ^ 63 - 2)"
proof -
  let ?cs = "[Advance, Advance, SeekTo (2 ^ 63 - 1), Retreat]"
  let ?init = "NewSegmentedIndex 0 3 [2, 1]"
  let ?s = "\<lparr>start = 0, lcd = 3, offsets = [2, 1],
             scaled = 6148914691236517204, unscaled = 2 ^ 63 - 2\<rparr>"
  have c: "cyclic 0 3 [2, 1]" by (simp add: cyclic_def)
  have p: "admitted ?cs ?init" by code_simp
  have r: "run ?cs ?init = ?s" by code_simp
  have a: "admissible (SeekTo 5) ?s" by simp
  note all = cursor_on_position [OF c p, unfolded r]
  have e: "exact_position ?s"
    using all by blast
  have "scaled (snd (do_call (SeekTo 5) ?s)) = scaled ?s
        \<longleftrightarrow> unscaled (snd (do_call (SeekTo 5) ?s)) = unscaled ?s"
    using all a by blast
  then have b: "scaled (snd (do_call (SeekTo 5) ?s)) = 6148914691236517204
        \<longleftrightarrow> unscaled (snd (do_call (SeekTo 5) ?s)) = 2 ^ 63 - 2"
    by simp
  show ?thesis
    by (intro conjI) (rule c p r e a b)+
qed




end
